theory Spec2Isabelle
  imports Main "HOL-Library.AList"
begin

section \<open>The crossword constraint solver of PSET7/crossword/generate.py\<close>

text \<open>
  The solver is the class \<open>CrosswordCreator\<close>. Its two fields are \<open>self.crossword\<close>,
  which no method changes, and the dictionary \<open>self.domains\<close>, which the consistency
  methods mutate. Every method is modelled as a function of the crossword and of the
  domains; a method that mutates the domains returns the new ones. A Python exception
  is the \<open>Inl\<close> of a sum.
\<close>

subsection \<open>Data model\<close>

datatype error = KeyError | IndexError | ValueError | TypeError

datatype direction = ACROSS | DOWN

text \<open>
  The classes \<open>Variable\<close> and \<open>Crossword\<close> come from the module \<open>crossword\<close>, which
  the solver imports. \<open>Variable\<close> has the attributes \<open>i\<close>, \<open>j\<close>, \<open>direction\<close> and
  \<open>length\<close>. Of a \<open>Crossword\<close> the solver reads the set \<open>variables\<close>, the set \<open>words\<close>,
  the dictionary \<open>overlaps\<close> and the method \<open>neighbors\<close>.

  A Python set is a list here: its elements in the order in which the set is
  iterated. Python does not fix that order, and no theorem below fixes the order of
  a list. The dictionary \<open>overlaps\<close> is a map from a pair of variables to the pair of
  character positions; a pair that is no key of the dictionary and a pair whose entry
  is \<open>None\<close> are both \<open>None\<close> of the map.
\<close>

record Variable =
  var_i :: nat
  var_j :: nat
  var_direction :: direction
  var_length :: nat

record Crossword =
  variables :: "Variable list"
  overlaps :: "Variable \<times> Variable \<Rightarrow> (nat \<times> nat) option"
  words :: "string list"

text \<open>
  Modelled from the spec: the entry of the overlap map for a pair of variables is the
  pair of the character positions (index in x, index in y) at which they must agree,
  so each position lies inside its variable.
\<close>

definition overlaps_in_bounds :: "Crossword \<Rightarrow> bool" where
  "overlaps_in_bounds cw \<longleftrightarrow>
     (\<forall>x y i j. overlaps cw (x, y) = Some (i, j) \<longrightarrow> i < var_length x \<and> j < var_length y)"

text \<open>
  Modelled from the spec: the overlap map records a pair of different variables that
  intersect, with the position in the one and the position in the other; the pair is
  unordered, so the entry for (y, x) is the entry for (x, y) with the positions
  exchanged.
\<close>

definition overlaps_symmetric :: "Crossword \<Rightarrow> bool" where
  "overlaps_symmetric cw \<longleftrightarrow>
     (\<forall>x y i j. overlaps cw (x, y) = Some (i, j) \<longrightarrow> x \<noteq> y \<and> overlaps cw (y, x) = Some (j, i))"

text \<open>
  Modelled from the spec: the method \<open>neighbors\<close> of the class \<open>Crossword\<close>, which is
  not part of generate.py. The neighbours of a variable are the variables sharing an
  overlap with it. The overlap map of the spec is for unordered pairs; the entry read
  here is the one for the pair (x, v), which is also the entry that \<open>revise\<close> and
  \<open>consistent\<close> read for an arc from x to its neighbour v.
\<close>

definition neighbors :: "Crossword \<Rightarrow> Variable \<Rightarrow> Variable list" where
  "neighbors cw x = filter (\<lambda>v. overlaps cw (x, v) \<noteq> None) (variables cw)"

text \<open>
  \<open>self.domains\<close>: a dictionary from variables to sets of words. An assignment is a
  dictionary from variables to words; it is an association list in insertion order, so
  that the truth value Python gives a dictionary (false when it is empty) can be computed.
\<close>

type_synonym domains = "Variable \<Rightarrow> string list option"

type_synonym assignment = "(Variable \<times> string) list"

text \<open>\<open>__init__\<close>: every variable starts with a copy of the whole word set.\<close>

definition init_domains :: "Crossword \<Rightarrow> domains" where
  "init_domains cw = (\<lambda>var. if var \<in> set (variables cw) then Some (words cw) else None)"

text \<open>The words of a variable's domain as a set; empty when the variable is no key.\<close>

definition domain_of :: "domains \<Rightarrow> Variable \<Rightarrow> string set" where
  "domain_of doms var = (case doms var of None \<Rightarrow> {} | Some ws \<Rightarrow> set ws)"

text \<open>\<open>word[k]\<close> for a position \<open>k\<close> counted from the start: IndexError out of range.\<close>

definition char_at :: "string \<Rightarrow> nat \<Rightarrow> error + char" where
  "char_at word k = (if k < length word then Inr (word ! k) else Inl IndexError)"

text \<open>
  The domains as the solver holds them once node consistency is enforced: every
  variable of the puzzle has a domain, the list of a domain repeats no word (it
  stands for a set), and every word of a domain has the length of its variable.
\<close>

definition words_fit :: "domains \<Rightarrow> bool" where
  "words_fit doms \<longleftrightarrow>
     (\<forall>v ws. doms v = Some ws \<longrightarrow> distinct ws \<and> (\<forall>w \<in> set ws. length w = var_length v))"

definition domains_fit :: "Crossword \<Rightarrow> domains \<Rightarrow> bool" where
  "domains_fit cw doms \<longleftrightarrow> (\<forall>v \<in> set (variables cw). doms v \<noteq> None) \<and> words_fit doms"

text \<open>
  Two words agree at an overlap when both positions are inside the words and hold the
  same character; a word is supported in a set of words when one of them agrees with it.
\<close>

definition agree_at :: "nat \<Rightarrow> nat \<Rightarrow> string \<Rightarrow> string \<Rightarrow> bool" where
  "agree_at i j word_x word_y \<longleftrightarrow>
     i < length word_x \<and> j < length word_y \<and> word_x ! i = word_y ! j"

definition supported_in :: "nat \<Rightarrow> nat \<Rightarrow> string \<Rightarrow> string set \<Rightarrow> bool" where
  "supported_in i j word_x ws \<longleftrightarrow> (\<exists>word_y \<in> ws. agree_at i j word_x word_y)"

subsection \<open>Node consistency\<close>

fun enforce_node_consistency_loop :: "Variable list \<Rightarrow> domains \<Rightarrow> error + domains" where
  "enforce_node_consistency_loop [] doms = Inr doms"
| "enforce_node_consistency_loop (var # vars) doms =
     (case doms var of
        None \<Rightarrow> Inl KeyError
      | Some ws \<Rightarrow>
          enforce_node_consistency_loop vars
            (doms(var \<mapsto> filter (\<lambda>word. length word = var_length var) ws)))"

definition enforce_node_consistency :: "Crossword \<Rightarrow> domains \<Rightarrow> error + domains" where
  "enforce_node_consistency cw doms = enforce_node_consistency_loop (variables cw) doms"

subsection \<open>Arc consistency\<close>

text \<open>
  \<open>any(word_x[i] == word_y[j] for word_y in self.domains[y])\<close>: the words of y's domain
  are tried in turn, both characters are read for each of them, and the first
  agreement ends the search.
\<close>

fun any_support :: "string \<Rightarrow> nat \<Rightarrow> nat \<Rightarrow> string list \<Rightarrow> error + bool" where
  "any_support word_x i j [] = Inr False"
| "any_support word_x i j (word_y # rest) =
     (case char_at word_x i of
        Inl e \<Rightarrow> Inl e
      | Inr a \<Rightarrow>
          (case char_at word_y j of
             Inl e \<Rightarrow> Inl e
           | Inr b \<Rightarrow> if a = b then Inr True else any_support word_x i j rest))"

text \<open>
  The loop of \<open>revise\<close> runs over a snapshot of x's domain (\<open>list(self.domains[x])\<close>)
  and reads the current domains at each step; \<open>set.remove\<close> raises KeyError for a word
  that is not in the set.
\<close>

fun revise_loop ::
  "nat \<Rightarrow> nat \<Rightarrow> Variable \<Rightarrow> Variable \<Rightarrow> string list \<Rightarrow> bool \<times> domains \<Rightarrow> error + bool \<times> domains"
where
  "revise_loop i j x y [] st = Inr st"
| "revise_loop i j x y (word_x # rest) (revised, doms) =
     (case doms y of
        None \<Rightarrow> Inl KeyError
      | Some dy \<Rightarrow>
          (case any_support word_x i j dy of
             Inl e \<Rightarrow> Inl e
           | Inr supported \<Rightarrow>
               if supported then revise_loop i j x y rest (revised, doms)
               else
                 (case doms x of
                    None \<Rightarrow> Inl KeyError
                  | Some dx \<Rightarrow>
                      if word_x \<in> set dx
                      then revise_loop i j x y rest (True, doms(x \<mapsto> removeAll word_x dx))
                      else Inl KeyError)))"

definition revise :: "Crossword \<Rightarrow> domains \<Rightarrow> Variable \<Rightarrow> Variable \<Rightarrow> error + bool \<times> domains" where
  "revise cw doms x y =
     (case overlaps cw (x, y) of
        None \<Rightarrow> Inr (False, doms)
      | Some (i, j) \<Rightarrow>
          (case doms x of
             None \<Rightarrow> Inl KeyError
           | Some dx \<Rightarrow> revise_loop i j x y dx (False, doms)))"

text \<open>
  The worklist loop of \<open>ac3\<close>. Nothing in its shape bounds the number of its steps (a
  revision appends arcs to the worklist), so it is a partial function: \<open>None\<close> stands
  for a loop that never returns.
\<close>

partial_function (option) ac3_loop ::
  "Crossword \<Rightarrow> domains \<Rightarrow> (Variable \<times> Variable) list \<Rightarrow> (error + bool \<times> domains) option"
where
  "ac3_loop cw doms queue =
     (case queue of
        [] \<Rightarrow> Some (Inr (True, doms))
      | (x, y) # rest \<Rightarrow>
          (case revise cw doms x y of
             Inl e \<Rightarrow> Some (Inl e)
           | Inr (revised, doms') \<Rightarrow>
               if revised then
                 (case doms' x of
                    None \<Rightarrow> Some (Inl KeyError)
                  | Some dx \<Rightarrow>
                      if dx = [] then Some (Inr (False, doms'))
                      else ac3_loop cw doms'
                             (rest @ map (\<lambda>neighbor. (neighbor, x))
                                       (filter (\<lambda>n. n \<noteq> y) (neighbors cw x))))
               else ac3_loop cw doms' rest))"

declare ac3_loop.simps [code]

text \<open>
  \<open>ac3\<close>: with no arcs given, the worklist starts as the list of the arcs from every
  variable to each of its neighbours.
\<close>

definition all_arcs :: "Crossword \<Rightarrow> (Variable \<times> Variable) list" where
  "all_arcs cw = concat (map (\<lambda>x. map (\<lambda>y. (x, y)) (neighbors cw x)) (variables cw))"

definition ac3 ::
  "Crossword \<Rightarrow> domains \<Rightarrow> (Variable \<times> Variable) list option \<Rightarrow> (error + bool \<times> domains) option"
where
  "ac3 cw doms arcs =
     ac3_loop cw doms (case arcs of None \<Rightarrow> all_arcs cw | Some given \<Rightarrow> given)"

text \<open>
  An arc is stable when its revision returns False: it raises nothing and removes
  nothing. A worklist holds all that is pending when every arc of the full arc set
  outside it is stable.
\<close>

definition arc_stable :: "Crossword \<Rightarrow> domains \<Rightarrow> Variable \<times> Variable \<Rightarrow> bool" where
  "arc_stable cw doms arc \<longleftrightarrow> revise cw doms (fst arc) (snd arc) = Inr (False, doms)"

definition pending_only :: "Crossword \<Rightarrow> domains \<Rightarrow> (Variable \<times> Variable) list \<Rightarrow> bool" where
  "pending_only cw doms queue \<longleftrightarrow>
     (\<forall>arc \<in> set (all_arcs cw). arc \<notin> set queue \<longrightarrow> arc_stable cw doms arc)"

text \<open>
  The size of a variable's domain, and the quantity that bounds the worklist loop: the
  sizes of the domains of the puzzle's variables and of the variables at the head of
  an arc in the worklist, added up.
\<close>

definition domain_size :: "domains \<Rightarrow> Variable \<Rightarrow> nat" where
  "domain_size doms var = (case doms var of None \<Rightarrow> 0 | Some ws \<Rightarrow> length ws)"

definition ac3_total :: "Crossword \<Rightarrow> domains \<Rightarrow> (Variable \<times> Variable) list \<Rightarrow> nat" where
  "ac3_total cw doms queue = sum (domain_size doms) (set (variables cw) \<union> fst ` set queue)"

text \<open>The arcs that the loop appends after a revision of the arc (x, y).\<close>

definition ac3_requeue :: "Crossword \<Rightarrow> Variable \<Rightarrow> Variable \<Rightarrow> (Variable \<times> Variable) list" where
  "ac3_requeue cw x y = map (\<lambda>neighbor. (neighbor, x)) (filter (\<lambda>n. n \<noteq> y) (neighbors cw x))"

subsection \<open>Backtracking search\<close>

text \<open>\<open>var in assignment\<close> and \<open>assignment[var]\<close> are lookups in the association list.\<close>

definition assignment_complete :: "Crossword \<Rightarrow> assignment \<Rightarrow> bool" where
  "assignment_complete cw a = list_all (\<lambda>var. map_of a var \<noteq> None) (variables cw)"

text \<open>
  The inner loop of \<open>consistent\<close>, over the neighbours of \<open>var\<close>. The entry
  \<open>overlaps[(var, neighbor)]\<close> is unpacked into two positions, which raises when there
  is none.
\<close>

fun consistent_neighbors ::
  "Crossword \<Rightarrow> assignment \<Rightarrow> Variable \<Rightarrow> Variable list \<Rightarrow> error + bool"
where
  "consistent_neighbors cw a var [] = Inr True"
| "consistent_neighbors cw a var (neighbor # rest) =
     (case map_of a neighbor of
        None \<Rightarrow> consistent_neighbors cw a var rest
      | Some word_n \<Rightarrow>
          (case overlaps cw (var, neighbor) of
             None \<Rightarrow> Inl TypeError
           | Some (i, j) \<Rightarrow>
               (case map_of a var of
                  None \<Rightarrow> Inl KeyError
                | Some word_v \<Rightarrow>
                    (case char_at word_v i of
                       Inl e \<Rightarrow> Inl e
                     | Inr c \<Rightarrow>
                         (case char_at word_n j of
                            Inl e \<Rightarrow> Inl e
                          | Inr d \<Rightarrow>
                              if c \<noteq> d then Inr False
                              else consistent_neighbors cw a var rest)))))"

text \<open>The outer loop of \<open>consistent\<close>, with the set \<open>assigned_words\<close> as its state.\<close>

fun consistent_loop ::
  "Crossword \<Rightarrow> assignment \<Rightarrow> Variable list \<Rightarrow> string set \<Rightarrow> error + bool"
where
  "consistent_loop cw a [] assigned_words = Inr True"
| "consistent_loop cw a (var # vars) assigned_words =
     (case map_of a var of
        None \<Rightarrow> consistent_loop cw a vars assigned_words
      | Some word \<Rightarrow>
          if length word \<noteq> var_length var then Inr False
          else
            (case consistent_neighbors cw a var (neighbors cw var) of
               Inl e \<Rightarrow> Inl e
             | Inr ok \<Rightarrow>
                 if \<not> ok then Inr False
                 else if word \<in> assigned_words then Inr False
                 else consistent_loop cw a vars (insert word assigned_words)))"

definition consistent :: "Crossword \<Rightarrow> assignment \<Rightarrow> error + bool" where
  "consistent cw a = consistent_loop cw a (variables cw) {}"

text \<open>The words of the assigned variables of a list, in the order of the list.\<close>

definition assigned_words_of :: "assignment \<Rightarrow> Variable list \<Rightarrow> string list" where
  "assigned_words_of a vars = map (\<lambda>v. the (map_of a v)) (filter (\<lambda>v. map_of a v \<noteq> None) vars)"

text \<open>
  \<open>order_domain_values\<close>: \<open>sorted\<close> is stable, and its key counts the neighbours whose
  domain holds the word. The key reads \<open>self.domains[neighbor]\<close> for every neighbour,
  once for each word that is sorted.
\<close>

definition lcv_key :: "Crossword \<Rightarrow> domains \<Rightarrow> Variable \<Rightarrow> string \<Rightarrow> nat" where
  "lcv_key cw doms var word =
     length (filter (\<lambda>neighbor. word \<in> domain_of doms neighbor) (neighbors cw var))"

definition order_domain_values ::
  "Crossword \<Rightarrow> domains \<Rightarrow> Variable \<Rightarrow> assignment \<Rightarrow> error + string list"
where
  "order_domain_values cw doms var a =
     (case doms var of
        None \<Rightarrow> Inl KeyError
      | Some ws \<Rightarrow>
          if ws \<noteq> [] \<and> list_ex (\<lambda>neighbor. doms neighbor = None) (neighbors cw var)
          then Inl KeyError
          else Inr (sort_key (lcv_key cw doms var) ws))"

text \<open>
  \<open>select_unassigned_variable\<close>: the list of the unassigned variables with the sizes of
  their domains is built first; \<open>min\<close> raises ValueError on an empty list and
  returns the first of the smallest entries otherwise.
\<close>

fun unassigned_vars ::
  "domains \<Rightarrow> assignment \<Rightarrow> Variable list \<Rightarrow> error + (Variable \<times> nat) list"
where
  "unassigned_vars doms a [] = Inr []"
| "unassigned_vars doms a (var # vars) =
     (if map_of a var \<noteq> None then unassigned_vars doms a vars
      else
        (case doms var of
           None \<Rightarrow> Inl KeyError
         | Some ws \<Rightarrow>
             (case unassigned_vars doms a vars of
                Inl e \<Rightarrow> Inl e
              | Inr ps \<Rightarrow> Inr ((var, length ws) # ps))))"

fun min_by_size :: "Variable \<times> nat \<Rightarrow> (Variable \<times> nat) list \<Rightarrow> Variable \<times> nat" where
  "min_by_size best [] = best"
| "min_by_size best (p # ps) = min_by_size (if snd p < snd best then p else best) ps"

definition select_unassigned_variable ::
  "Crossword \<Rightarrow> domains \<Rightarrow> assignment \<Rightarrow> error + Variable"
where
  "select_unassigned_variable cw doms a =
     (case unassigned_vars doms a (variables cw) of
        Inl e \<Rightarrow> Inl e
      | Inr [] \<Rightarrow> Inl ValueError
      | Inr (p # ps) \<Rightarrow> Inr (fst (min_by_size p ps)))"

text \<open>
  \<open>backtrack\<close> mutates the dictionary it is given and returns it, or \<open>None\<close>. The model
  returns the result together with the assignment as the call leaves it. Its first
  argument is fuel: the number of nested calls of \<open>backtrack\<close> that may be entered; a
  call entered with no fuel does not return (\<open>None\<close> of the outer option).
  \<open>backtrack_values\<close> is the \<open>for\<close> loop over the ordered values. The test
  \<open>if result\<close> fails for \<open>None\<close> and for the empty dictionary, and \<open>pop\<close> raises
  KeyError for a key that the dictionary does not hold.
\<close>

fun backtrack ::
  "nat \<Rightarrow> Crossword \<Rightarrow> domains \<Rightarrow> assignment \<Rightarrow> (error + assignment option \<times> assignment) option"
and backtrack_values ::
  "nat \<Rightarrow> Crossword \<Rightarrow> domains \<Rightarrow> Variable \<Rightarrow> string list \<Rightarrow> assignment \<Rightarrow>
     (error + assignment option \<times> assignment) option"
where
  "backtrack 0 cw doms a = None"
| "backtrack (Suc n) cw doms a =
     (if assignment_complete cw a then Some (Inr (Some a, a))
      else
        (case select_unassigned_variable cw doms a of
           Inl e \<Rightarrow> Some (Inl e)
         | Inr var \<Rightarrow>
             (case order_domain_values cw doms var a of
                Inl e \<Rightarrow> Some (Inl e)
              | Inr vals \<Rightarrow> backtrack_values n cw doms var vals a)))"
| "backtrack_values n cw doms var [] a = Some (Inr (None, a))"
| "backtrack_values n cw doms var (val # vals) a =
     (case consistent cw (AList.update var val a) of
        Inl e \<Rightarrow> Some (Inl e)
      | Inr ok \<Rightarrow>
          if ok then
            (case backtrack n cw doms (AList.update var val a) of
               None \<Rightarrow> None
             | Some (Inl e) \<Rightarrow> Some (Inl e)
             | Some (Inr (result, a')) \<Rightarrow>
                 if result \<noteq> None \<and> result \<noteq> Some [] then Some (Inr (result, a'))
                 else if map_of a' var = None then Some (Inl KeyError)
                 else backtrack_values n cw doms var vals (AList.delete var a'))
          else backtrack_values n cw doms var vals
                 (AList.delete var (AList.update var val a)))"

text \<open>The number of variables of the puzzle that the assignment leaves open.\<close>

definition unassigned_count :: "Crossword \<Rightarrow> assignment \<Rightarrow> nat" where
  "unassigned_count cw a = length (filter (\<lambda>v. map_of a v = None) (variables cw))"

text \<open>
  \<open>solve\<close>: the three calls in sequence. The value \<open>ac3\<close> returns is not read. The
  result is what \<open>backtrack\<close> returns, with the domains as \<open>solve\<close> leaves them.
\<close>

definition solve ::
  "nat \<Rightarrow> Crossword \<Rightarrow> domains \<Rightarrow> (error + assignment option \<times> domains) option"
where
  "solve n cw doms =
     (case enforce_node_consistency cw doms of
        Inl e \<Rightarrow> Some (Inl e)
      | Inr doms1 \<Rightarrow>
          (case ac3 cw doms1 None of
             None \<Rightarrow> None
           | Some (Inl e) \<Rightarrow> Some (Inl e)
           | Some (Inr (arc_consistent, doms2)) \<Rightarrow>
               (case backtrack n cw doms2 [] of
                  None \<Rightarrow> None
                | Some (Inl e) \<Rightarrow> Some (Inl e)
                | Some (Inr (result, a)) \<Rightarrow> Some (Inr (result, doms2)))))"

text \<open>
  The spec's \<open>solve\<close>: node consistency, then arc consistency, and when that reports
  failure the result is "no solution" without a call of \<open>backtrack\<close>.
\<close>

definition solve_spec ::
  "nat \<Rightarrow> Crossword \<Rightarrow> domains \<Rightarrow> (error + assignment option \<times> domains) option"
where
  "solve_spec n cw doms =
     (case enforce_node_consistency cw doms of
        Inl e \<Rightarrow> Some (Inl e)
      | Inr doms1 \<Rightarrow>
          (case ac3 cw doms1 None of
             None \<Rightarrow> None
           | Some (Inl e) \<Rightarrow> Some (Inl e)
           | Some (Inr (arc_consistent, doms2)) \<Rightarrow>
               if \<not> arc_consistent then Some (Inr (None, doms2))
               else
                 (case backtrack n cw doms2 [] of
                    None \<Rightarrow> None
                  | Some (Inl e) \<Rightarrow> Some (Inl e)
                  | Some (Inr (result, a)) \<Rightarrow> Some (Inr (result, doms2)))))"

text \<open>What the call of \<open>ac3\<close> inside \<open>solve\<close> returns to it.\<close>

definition ac3_report :: "Crossword \<Rightarrow> domains \<Rightarrow> (error + bool) option" where
  "ac3_report cw doms =
     (case enforce_node_consistency cw doms of
        Inl e \<Rightarrow> Some (Inl e)
      | Inr doms1 \<Rightarrow> map_option (map_sum id fst) (ac3 cw doms1 None))"

text \<open>The result of a run of \<open>solve\<close> without the domains.\<close>

definition outcome ::
  "(error + assignment option \<times> domains) option \<Rightarrow> (error + assignment option) option"
where
  "outcome r = map_option (map_sum id fst) r"

subsection \<open>Example puzzles\<close>

text \<open>
  \<open>ex_cw\<close>: two slots that cross in their first cell, one across of length 2 and one
  down of length 3, and two words of which neither agrees with the other there.
  \<open>ex_cw2\<close>: a third slot of length 2 lies across the last cell of the slot that runs
  down; it does not meet the first slot. This puzzle has a solution.
\<close>

definition ex_x :: Variable where
  "ex_x = \<lparr>var_i = 0, var_j = 0, var_direction = ACROSS, var_length = 2\<rparr>"

definition ex_y :: Variable where
  "ex_y = \<lparr>var_i = 0, var_j = 0, var_direction = DOWN, var_length = 3\<rparr>"

definition ex_z :: Variable where
  "ex_z = \<lparr>var_i = 2, var_j = 0, var_direction = ACROSS, var_length = 2\<rparr>"

definition ex_cw :: Crossword where
  "ex_cw = \<lparr>variables = [ex_x, ex_y],
     overlaps = map_of [((ex_x, ex_y), (0, 0)), ((ex_y, ex_x), (0, 0))],
     words = [''ab'', ''cde'']\<rparr>"

definition ex_cw2 :: Crossword where
  "ex_cw2 = \<lparr>variables = [ex_x, ex_y, ex_z],
     overlaps = map_of [((ex_x, ex_y), (0, 0)), ((ex_y, ex_x), (0, 0)),
                        ((ex_y, ex_z), (2, 0)), ((ex_z, ex_y), (0, 2))],
     words = [''ab'', ''cd'', ''cde'', ''xyz'', ''ef'']\<rparr>"

text \<open>The domains of \<open>ex_cw2\<close> once the words of the wrong length are gone.\<close>

definition ex_doms2 :: domains where
  "ex_doms2 = [ex_x \<mapsto> [''ab'', ''cd'', ''ef''], ex_y \<mapsto> [''cde'', ''xyz''],
               ex_z \<mapsto> [''ab'', ''cd'', ''ef'']]"

text \<open>The domains of \<open>ex_cw\<close> once the words of the wrong length are gone.\<close>

definition ex_doms1 :: domains where
  "ex_doms1 = [ex_x \<mapsto> [''ab''], ex_y \<mapsto> [''cde'']]"

lemma ex_distinct:
  "ex_x \<noteq> ex_y" "ex_x \<noteq> ex_z" "ex_y \<noteq> ex_z" "ex_y \<noteq> ex_x" "ex_z \<noteq> ex_x" "ex_z \<noteq> ex_y"
  by (simp_all add: ex_x_def ex_y_def ex_z_def)

subsection \<open>Revision of an arc between variables that do not overlap\<close>

text \<open>
  C7. For variables x and y with no recorded overlap, \<open>revise(x, y)\<close> returns False
  and leaves the domains of all variables as they were.
\<close>

theorem revise_no_overlap:
  "overlaps cw (x, y) = None \<Longrightarrow> revise cw doms x y = Inr (False, doms)"
  by (simp add: revise_def)

theorem revise_no_overlap_witness:
  "overlaps ex_cw2 (ex_x, ex_z) = None \<and> revise ex_cw2 ex_doms2 ex_x ex_z = Inr (False, ex_doms2)"
proof -
  have h: "overlaps ex_cw2 (ex_x, ex_z) = None"
    by (simp add: ex_cw2_def ex_distinct)
  from h revise_no_overlap[OF h] show ?thesis by simp
qed

subsection \<open>What a revision leaves in the domain\<close>

text \<open>
  For distinct variables the loop of \<open>revise\<close> keeps exactly the words of x's domain
  that are supported in y's domain, and reports whether one of them was not.
\<close>

lemma any_support_Inr:
  "any_support word_x i j ws = Inr b \<Longrightarrow> b = supported_in i j word_x (set ws)"
  by (induction ws) (auto simp: char_at_def supported_in_def agree_at_def split: if_splits)

lemma revise_loop_result:
  assumes "x \<noteq> y"
  shows "revise_loop i j x y ws (r, doms) = Inr (r', doms') \<Longrightarrow> doms x = Some dx \<Longrightarrow>
         doms' = doms(x \<mapsto> filter (\<lambda>v. v \<notin> set ws \<or> supported_in i j v (domain_of doms y)) dx)
         \<and> r' = (r \<or> (\<exists>w \<in> set ws. \<not> supported_in i j w (domain_of doms y)))"
proof (induction ws arbitrary: r doms dx)
  case Nil
  then show ?case by auto
next
  case (Cons w ws)
  from Cons.prems obtain dy where dy: "doms y = Some dy"
    by (auto split: option.splits)
  from Cons.prems dy obtain b where b: "any_support w i j dy = Inr b"
    by (auto split: sum.splits)
  have bs: "b = supported_in i j w (domain_of doms y)"
    using any_support_Inr[OF b] dy by (simp add: domain_of_def)
  let ?S = "\<lambda>v. supported_in i j v (domain_of doms y)"
  show ?case
  proof (cases b)
    case True
    with Cons.prems dy b have "revise_loop i j x y ws (r, doms) = Inr (r', doms')" by simp
    from Cons.IH[OF this Cons.prems(2)]
    have 1: "doms' = doms(x \<mapsto> filter (\<lambda>v. v \<notin> set ws \<or> ?S v) dx)"
      and 2: "r' = (r \<or> (\<exists>w \<in> set ws. \<not> ?S w))" by auto
    have "filter (\<lambda>v. v \<notin> set (w # ws) \<or> ?S v) dx = filter (\<lambda>v. v \<notin> set ws \<or> ?S v) dx"
      using True bs by (intro filter_cong) auto
    with 1 2 True bs show ?thesis by simp
  next
    case False
    with Cons.prems dy b have mem: "w \<in> set dx"
      and step: "revise_loop i j x y ws (True, doms(x \<mapsto> removeAll w dx)) = Inr (r', doms')"
      by (auto split: if_splits)
    have dy': "domain_of (doms(x \<mapsto> removeAll w dx)) y = domain_of doms y"
      using assms by (simp add: domain_of_def)
    have pre: "(doms(x \<mapsto> removeAll w dx)) x = Some (removeAll w dx)" by simp
    note ih = Cons.IH[OF step pre, unfolded dy' fun_upd_upd]
    from ih have 1: "doms' = doms(x \<mapsto> filter (\<lambda>v. v \<notin> set ws \<or> ?S v) (removeAll w dx))"
      by (rule conjunct1)
    from ih have 2: "r'" by simp
    have "filter (\<lambda>v. v \<notin> set ws \<or> ?S v) (removeAll w dx)
          = filter (\<lambda>v. v \<notin> set (w # ws) \<or> ?S v) dx"
      unfolding removeAll_filter_not_eq filter_filter
      using False bs by (intro filter_cong) auto
    with 1 2 False bs show ?thesis by auto
  qed
qed

lemma revise_result:
  assumes "revise cw doms x y = Inr (revised, doms')" "overlaps cw (x, y) = Some (i, j)" "x \<noteq> y"
  shows "\<exists>dx. doms x = Some dx \<and>
           doms' = doms(x \<mapsto> filter (\<lambda>v. supported_in i j v (domain_of doms y)) dx) \<and>
           revised = (\<exists>w \<in> set dx. \<not> supported_in i j w (domain_of doms y))"
proof -
  from assms obtain dx where dx: "doms x = Some dx"
    and l: "revise_loop i j x y dx (False, doms) = Inr (revised, doms')"
    by (auto simp: revise_def split: option.splits)
  from revise_loop_result[OF assms(3) l dx] dx show ?thesis
    by (auto intro!: arg_cong[where f="\<lambda>z. doms(x \<mapsto> z)"] filter_cong)
qed

lemma ex_revise_xy: "revise ex_cw2 ex_doms2 ex_x ex_y = Inr (True, ex_doms2(ex_x \<mapsto> [''cd'']))"
  by (simp add: revise_def ex_cw2_def ex_doms2_def ex_distinct char_at_def)

text \<open>
  C4. For distinct variables x and y with a recorded overlap, when \<open>revise(x, y)\<close>
  returns, every word left in x's domain agrees at the overlap with some word of y's
  domain, and the value returned is True exactly when a word of x's domain was
  removed. No word is added, and no other domain changes.
\<close>

theorem revise_sound:
  assumes "revise cw doms x y = Inr (revised, doms')" "overlaps cw (x, y) = Some (i, j)" "x \<noteq> y"
  shows "(\<forall>word_x \<in> domain_of doms' x. \<exists>word_y \<in> domain_of doms' y. agree_at i j word_x word_y)
       \<and> (revised \<longleftrightarrow> (\<exists>word. word \<in> domain_of doms x \<and> word \<notin> domain_of doms' x))
       \<and> domain_of doms' x \<subseteq> domain_of doms x
       \<and> (\<forall>v. v \<noteq> x \<longrightarrow> doms' v = doms v)"
proof -
  from revise_result[OF assms] obtain dx where dx: "doms x = Some dx"
    and d': "doms' = doms(x \<mapsto> filter (\<lambda>v. supported_in i j v (domain_of doms y)) dx)"
    and r: "revised = (\<exists>w \<in> set dx. \<not> supported_in i j w (domain_of doms y))" by blast
  have y: "domain_of doms' y = domain_of doms y"
    using d' assms(3) by (simp add: domain_of_def)
  show ?thesis
    using dx d' r y by (auto simp: domain_of_def supported_in_def)
qed


theorem revise_sound_witness:
  "revise ex_cw2 ex_doms2 ex_x ex_y = Inr (True, ex_doms2(ex_x \<mapsto> [''cd'']))
   \<and> overlaps ex_cw2 (ex_x, ex_y) = Some (0, 0) \<and> ex_x \<noteq> ex_y
   \<and> (\<exists>word_y \<in> domain_of (ex_doms2(ex_x \<mapsto> [''cd''])) ex_y. agree_at 0 0 ''cd'' word_y)
   \<and> (\<exists>word. word \<in> domain_of ex_doms2 ex_x \<and> word \<notin> domain_of (ex_doms2(ex_x \<mapsto> [''cd''])) ex_x)"
proof -
  have o: "overlaps ex_cw2 (ex_x, ex_y) = Some (0, 0)"
    by (simp add: ex_cw2_def)
  have m: "''cd'' \<in> domain_of (ex_doms2(ex_x \<mapsto> [''cd''])) ex_x"
    by (simp add: domain_of_def)
  from revise_sound[OF ex_revise_xy o ex_distinct(1)] m o ex_revise_xy ex_distinct(1)
  show ?thesis by blast
qed

subsection \<open>What a revision changes\<close>

text \<open>
  For any two variables: a revision touches no domain but that of x, adds no word,
  changes nothing when it returns False and removes a word when it returns True.
\<close>

lemma length_removeAll_less: "w \<in> set ws \<Longrightarrow> length (removeAll w ws) < length ws"
  by (induction ws) (auto simp: less_Suc_eq_le length_removeAll_less_eq)

lemma revise_loop_frame:
  "revise_loop i j x y ws (r, doms) = Inr (r', doms') \<Longrightarrow>
     (\<forall>v. v \<noteq> x \<longrightarrow> doms' v = doms v) \<and>
     domain_of doms' x \<subseteq> domain_of doms x \<and>
     (r \<longrightarrow> r') \<and> (\<not> r' \<longrightarrow> doms' = doms) \<and>
     domain_size doms' x \<le> domain_size doms x \<and>
     (r' \<and> \<not> r \<longrightarrow> domain_size doms' x < domain_size doms x) \<and>
     (doms' x = None \<longleftrightarrow> doms x = None)"
proof (induction ws arbitrary: r doms)
  case Nil
  then show ?case by simp
next
  case (Cons w ws)
  from Cons.prems obtain dy b where dy: "doms y = Some dy" and b: "any_support w i j dy = Inr b"
    by (auto split: option.splits sum.splits)
  show ?case
  proof (cases b)
    case True
    with Cons.prems dy b have "revise_loop i j x y ws (r, doms) = Inr (r', doms')" by simp
    from Cons.IH[OF this] show ?thesis .
  next
    case False
    define d1 where "d1 = doms(x \<mapsto> removeAll w (the (doms x)))"
    from False Cons.prems dy b obtain dx where dx: "doms x = Some dx" and mem: "w \<in> set dx"
      and step: "revise_loop i j x y ws (True, d1) = Inr (r', doms')"
      by (auto simp: d1_def split: if_splits option.splits)
    note ih = Cons.IH[OF step]
    have d1x: "d1 x = Some (removeAll w dx)" and d1o: "\<And>v. v \<noteq> x \<Longrightarrow> d1 v = doms v"
      using dx by (simp_all add: d1_def)
    have s: "domain_size d1 x < domain_size doms x"
      using dx mem d1x by (simp add: domain_size_def length_removeAll_less)
    have d: "domain_of d1 x \<subseteq> domain_of doms x"
      using dx d1x by (auto simp: domain_of_def)
    have ne: "d1 \<noteq> doms" using s by auto
    from ih s d dx d1x d1o show ?thesis by auto
  qed
qed

lemma revise_frame:
  assumes "revise cw doms x y = Inr (revised, doms')"
  shows "(\<forall>v. v \<noteq> x \<longrightarrow> doms' v = doms v) \<and>
     domain_of doms' x \<subseteq> domain_of doms x \<and>
     (\<not> revised \<longrightarrow> doms' = doms) \<and>
     domain_size doms' x \<le> domain_size doms x \<and>
     (revised \<longrightarrow> domain_size doms' x < domain_size doms x) \<and>
     (doms' x = None \<longleftrightarrow> doms x = None)"
proof (cases "overlaps cw (x, y)")
  case None
  with assms show ?thesis by (simp add: revise_def)
next
  case (Some ij)
  obtain i j where ij: "ij = (i, j)" by (cases ij)
  from assms Some ij obtain dx where "doms x = Some dx"
    and l: "revise_loop i j x y dx (False, doms) = Inr (revised, doms')"
    by (auto simp: revise_def split: option.splits)
  from revise_loop_frame[OF l] show ?thesis by simp
qed

lemma revise_shrinks:
  assumes "revise cw doms x y = Inr (revised, doms')"
  shows "domain_of doms' v \<subseteq> domain_of doms v"
proof (cases "v = x")
  case True
  with revise_frame[OF assms] show ?thesis by simp
next
  case False
  with revise_frame[OF assms] show ?thesis by (simp add: domain_of_def)
qed

subsection \<open>Node consistency keeps the words of the right length\<close>

lemma enforce_node_consistency_loop_result:
  "enforce_node_consistency_loop vars doms = Inr doms' \<Longrightarrow>
     (\<forall>v. v \<notin> set vars \<longrightarrow> doms' v = doms v) \<and>
     (\<forall>v \<in> set vars. \<exists>ws. doms v = Some ws \<and>
         doms' v = Some (filter (\<lambda>word. length word = var_length v) ws))"
proof (induction vars arbitrary: doms)
  case Nil
  then show ?case by simp
next
  case (Cons var vars)
  from Cons.prems obtain ws where ws: "doms var = Some ws"
    and step: "enforce_node_consistency_loop vars
       (doms(var \<mapsto> filter (\<lambda>word. length word = var_length var) ws)) = Inr doms'"
    by (auto split: option.splits)
  note ih = Cons.IH[OF step]
  show ?case
  proof (intro conjI allI ballI impI)
    fix v assume "v \<notin> set (var # vars)"
    with ih show "doms' v = doms v" by auto
  next
    fix v assume v: "v \<in> set (var # vars)"
    show "\<exists>ws. doms v = Some ws \<and> doms' v = Some (filter (\<lambda>word. length word = var_length v) ws)"
    proof (cases "v \<in> set vars")
      case True
      with ih obtain ws' where
        1: "(doms(var \<mapsto> filter (\<lambda>word. length word = var_length var) ws)) v = Some ws'"
        and 2: "doms' v = Some (filter (\<lambda>word. length word = var_length v) ws')" by blast
      show ?thesis
      proof (cases "v = var")
        case True
        with 1 2 ws show ?thesis by auto
      next
        case False
        with 1 2 show ?thesis by auto
      qed
    next
      case False
      with v have "v = var" by simp
      with False ih ws show ?thesis by auto
    qed
  qed
qed

lemma enforce_node_consistency_shrinks:
  assumes "enforce_node_consistency cw doms = Inr doms'"
  shows "domain_of doms' v \<subseteq> domain_of doms v"
proof (cases "v \<in> set (variables cw)")
  case True
  with enforce_node_consistency_loop_result[OF assms[unfolded enforce_node_consistency_def]]
  show ?thesis by (auto simp: domain_of_def)
next
  case False
  with enforce_node_consistency_loop_result[OF assms[unfolded enforce_node_consistency_def]]
  show ?thesis by (auto simp: domain_of_def)
qed


subsection \<open>The worklist loop returns\<close>

text \<open>
  Each step of the loop either shortens the worklist and leaves the domains alone, or
  removes a word from a domain: the pair of the added sizes and the length of the
  worklist falls in the lexicographic order. The induction rule below follows the
  loop along this order.
\<close>

lemma ac3_loop_Nil: "ac3_loop cw doms [] = Some (Inr (True, doms))"
  by (simp add: ac3_loop.simps)

lemma ac3_loop_error:
  "revise cw doms x y = Inl e \<Longrightarrow> ac3_loop cw doms ((x, y) # rest) = Some (Inl e)"
  by (subst ac3_loop.simps) simp

lemma ac3_loop_unrevised:
  "revise cw doms x y = Inr (False, doms') \<Longrightarrow>
     ac3_loop cw doms ((x, y) # rest) = ac3_loop cw doms' rest"
  by (subst ac3_loop.simps) simp

lemma ac3_loop_emptied:
  "revise cw doms x y = Inr (True, doms') \<Longrightarrow> doms' x = Some [] \<Longrightarrow>
     ac3_loop cw doms ((x, y) # rest) = Some (Inr (False, doms'))"
  by (subst ac3_loop.simps) simp

lemma ac3_loop_revised:
  "revise cw doms x y = Inr (True, doms') \<Longrightarrow> doms' x = Some dx \<Longrightarrow> dx \<noteq> [] \<Longrightarrow>
     ac3_loop cw doms ((x, y) # rest) = ac3_loop cw doms' (rest @ ac3_requeue cw x y)"
  by (subst ac3_loop.simps) (simp add: ac3_requeue_def)

lemma ac3_total_mono:
  assumes "fst ` set queue' \<subseteq> set (variables cw) \<union> fst ` set queue"
    and "\<And>v. domain_size doms' v \<le> domain_size doms v"
  shows "ac3_total cw doms' queue' \<le> ac3_total cw doms queue"
proof -
  have "ac3_total cw doms' queue' \<le> sum (domain_size doms') (set (variables cw) \<union> fst ` set queue)"
    unfolding ac3_total_def using assms(1) by (intro sum_mono2) auto
  also have "\<dots> \<le> ac3_total cw doms queue"
    unfolding ac3_total_def using assms(2) by (intro sum_mono) auto
  finally show ?thesis .
qed

lemma ac3_total_less:
  assumes "fst ` set queue' \<subseteq> set (variables cw) \<union> fst ` set queue"
    and "\<And>v. domain_size doms' v \<le> domain_size doms v"
    and "x \<in> fst ` set queue" "domain_size doms' x < domain_size doms x"
  shows "ac3_total cw doms' queue' < ac3_total cw doms queue"
proof -
  have "ac3_total cw doms' queue' \<le> sum (domain_size doms') (set (variables cw) \<union> fst ` set queue)"
    unfolding ac3_total_def using assms(1) by (intro sum_mono2) auto
  also have "\<dots> < ac3_total cw doms queue"
    unfolding ac3_total_def using assms(2,3,4) by (intro sum_strict_mono_ex1) auto
  finally show ?thesis .
qed

lemma revise_size_le:
  assumes "revise cw doms x y = Inr (revised, doms')"
  shows "domain_size doms' v \<le> domain_size doms v"
proof (cases "v = x")
  case True
  with revise_frame[OF assms] show ?thesis by simp
next
  case False
  with revise_frame[OF assms] show ?thesis by (simp add: domain_size_def)
qed

lemma ac3_requeue_fst: "fst ` set (ac3_requeue cw x y) \<subseteq> set (variables cw)"
  by (auto simp: ac3_requeue_def neighbors_def)

lemma ac3_loop_induct:
  assumes step: "\<And>doms queue.
     (\<And>x y rest doms'. queue = (x, y) # rest \<Longrightarrow> revise cw doms x y = Inr (False, doms') \<Longrightarrow>
         P doms' rest) \<Longrightarrow>
     (\<And>x y rest doms' dx. queue = (x, y) # rest \<Longrightarrow> revise cw doms x y = Inr (True, doms') \<Longrightarrow>
         doms' x = Some dx \<Longrightarrow> dx \<noteq> [] \<Longrightarrow> P doms' (rest @ ac3_requeue cw x y)) \<Longrightarrow>
     P doms queue"
  shows "P doms queue"
proof -
  define rel where "rel = inv_image (less_than <*lex*> less_than)
     (\<lambda>p :: domains \<times> (Variable \<times> Variable) list. (ac3_total cw (fst p) (snd p), length (snd p)))"
  have wf: "wf rel"
    unfolding rel_def by (intro wf_inv_image wf_lex_prod wf_less_than)
  have "P (fst p) (snd p)" for p
  proof (induction p rule: wf_induct_rule[OF wf])
    case (1 p)
    show ?case
    proof (rule step)
      fix x y rest doms'
      assume q: "snd p = (x, y) # rest" and r: "revise cw (fst p) x y = Inr (False, doms')"
      have "ac3_total cw doms' rest \<le> ac3_total cw (fst p) (snd p)"
        using q revise_size_le[OF r] by (intro ac3_total_mono) auto
      then have "((doms', rest), p) \<in> rel"
        using q by (auto simp: rel_def)
      from 1[OF this] show "P doms' rest" by simp
    next
      fix x y rest doms' dx
      assume q: "snd p = (x, y) # rest" and r: "revise cw (fst p) x y = Inr (True, doms')"
      have "domain_size doms' x < domain_size (fst p) x"
        using revise_frame[OF r] by simp
      then have "ac3_total cw doms' (rest @ ac3_requeue cw x y) < ac3_total cw (fst p) (snd p)"
        using q revise_size_le[OF r] ac3_requeue_fst[of cw x y]
        by (intro ac3_total_less[where x = x]) auto
      then have "((doms', rest @ ac3_requeue cw x y), p) \<in> rel"
        by (auto simp: rel_def)
      from 1[OF this] show "P doms' (rest @ ac3_requeue cw x y)" by simp
    qed
  qed
  from this[of "(doms, queue)"] show ?thesis by simp
qed

lemma ac3_loop_returns: "\<exists>r. ac3_loop cw doms queue = Some r"
proof (induction doms queue rule: ac3_loop_induct[where cw = cw])
  case (1 doms queue)
  show ?case
  proof (cases queue)
    case Nil
    then show ?thesis by (simp add: ac3_loop_Nil)
  next
    case (Cons a rest)
    obtain x y where a: "a = (x, y)" by (cases a)
    show ?thesis
    proof (cases "revise cw doms x y")
      case (Inl e)
      with Cons a show ?thesis by (simp add: ac3_loop_error)
    next
      case (Inr rd)
      obtain revised doms' where rd: "rd = (revised, doms')" by (cases rd)
      show ?thesis
      proof (cases revised)
        case False
        with Inr rd have r: "revise cw doms x y = Inr (False, doms')" by simp
        from 1(1)[OF _ r] Cons a ac3_loop_unrevised[OF r] show ?thesis by simp
      next
        case True
        with Inr rd have r: "revise cw doms x y = Inr (True, doms')" by simp
        show ?thesis
        proof (cases "doms' x")
          case None
          with r Cons a show ?thesis by (subst ac3_loop.simps) simp
        next
          case (Some dx)
          show ?thesis
          proof (cases "dx = []")
            case True
            with Some r Cons a show ?thesis by (simp add: ac3_loop_emptied)
          next
            case False
            from 1(2)[OF _ r Some False] Cons a ac3_loop_revised[OF r Some False]
            show ?thesis by simp
          qed
        qed
      qed
    qed
  qed
qed


lemma ex_revise1_xy: "revise ex_cw ex_doms1 ex_x ex_y = Inr (True, ex_doms1(ex_x \<mapsto> []))"
  by (simp add: revise_def ex_cw_def ex_doms1_def ex_distinct char_at_def)

lemma ex_revise_yz: "revise ex_cw2 ex_doms2 ex_y ex_z = Inr (True, ex_doms2(ex_y \<mapsto> [''cde'']))"
  by (simp add: revise_def ex_cw2_def ex_doms2_def ex_distinct char_at_def)

lemma ex_revise_xz: "revise ex_cw2 ex_doms2 ex_x ex_z = Inr (False, ex_doms2)"
  by (simp add: revise_def ex_cw2_def ex_distinct)

lemma all_arcs_fst: "fst ` set (all_arcs cw) \<subseteq> set (variables cw)"
  by (auto simp: all_arcs_def)

lemma ac3_loop_False_emptied:
  "ac3_loop cw doms queue = Some (Inr (False, doms')) \<Longrightarrow>
     \<exists>x \<in> fst ` set queue \<union> set (variables cw). doms' x = Some []"
proof (induction doms queue rule: ac3_loop_induct[where cw = cw])
  case (1 doms queue)
  show ?case
  proof (cases queue)
    case Nil
    with 1(3) show ?thesis by (simp add: ac3_loop_Nil)
  next
    case (Cons a rest)
    obtain x y where a: "a = (x, y)" by (cases a)
    show ?thesis
    proof (cases "revise cw doms x y")
      case (Inl e)
      with Cons a 1(3) show ?thesis by (simp add: ac3_loop_error)
    next
      case (Inr rd)
      obtain revised d1 where rd: "rd = (revised, d1)" by (cases rd)
      show ?thesis
      proof (cases revised)
        case False
        with Inr rd have r: "revise cw doms x y = Inr (False, d1)" by simp
        from 1(3) Cons a ac3_loop_unrevised[OF r]
        have "ac3_loop cw d1 rest = Some (Inr (False, doms'))" by simp
        from 1(1)[OF _ r this] Cons a show ?thesis by auto
      next
        case True
        with Inr rd have r: "revise cw doms x y = Inr (True, d1)" by simp
        show ?thesis
        proof (cases "d1 x")
          case None
          with r Cons a 1(3) show ?thesis by (subst (asm) ac3_loop.simps) simp
        next
          case (Some dx)
          show ?thesis
          proof (cases "dx = []")
            case True
            with Some r Cons a 1(3) show ?thesis by (auto simp: ac3_loop_emptied)
          next
            case False
            from 1(3) Cons a ac3_loop_revised[OF r Some False]
            have "ac3_loop cw d1 (rest @ ac3_requeue cw x y) = Some (Inr (False, doms'))" by simp
            from 1(2)[OF _ r Some False this] Cons a ac3_requeue_fst[of cw x y]
            show ?thesis by auto
          qed
        qed
      qed
    qed
  qed
qed

subsection \<open>Domains only shrink\<close>

lemma ac3_loop_shrinks:
  "ac3_loop cw doms queue = Some (Inr (ok, doms')) \<Longrightarrow> domain_of doms' v \<subseteq> domain_of doms v"
proof (induction doms queue rule: ac3_loop_induct[where cw = cw])
  case (1 doms queue)
  show ?case
  proof (cases queue)
    case Nil
    with 1(3) show ?thesis by (simp add: ac3_loop_Nil)
  next
    case (Cons a rest)
    obtain x y where a: "a = (x, y)" by (cases a)
    show ?thesis
    proof (cases "revise cw doms x y")
      case (Inl e)
      with Cons a 1(3) show ?thesis by (simp add: ac3_loop_error)
    next
      case (Inr rd)
      obtain revised d1 where rd: "rd = (revised, d1)" by (cases rd)
      with Inr have r0: "revise cw doms x y = Inr (revised, d1)" by simp
      note sh = revise_shrinks[OF r0, of v]
      show ?thesis
      proof (cases revised)
        case False
        with Inr rd have r: "revise cw doms x y = Inr (False, d1)" by simp
        from 1(1)[OF _ r] Cons a ac3_loop_unrevised[OF r] 1(3) sh show ?thesis by auto
      next
        case True
        with Inr rd have r: "revise cw doms x y = Inr (True, d1)" by simp
        show ?thesis
        proof (cases "d1 x")
          case None
          with r Cons a 1(3) show ?thesis by (subst (asm) ac3_loop.simps) simp
        next
          case (Some dx)
          show ?thesis
          proof (cases "dx = []")
            case True
            with Some r Cons a 1(3) sh show ?thesis by (auto simp: ac3_loop_emptied)
          next
            case False
            from 1(2)[OF _ r Some False] Cons a ac3_loop_revised[OF r Some False] 1(3) sh
            show ?thesis by auto
          qed
        qed
      qed
    qed
  qed
qed

lemma run_resultE:
  assumes "case r of Some (Inr (a, d)) \<Rightarrow> P a d | _ \<Rightarrow> False"
  obtains a d where "r = Some (Inr (a, d))" "P a d"
proof (cases r)
  case None
  with assms show ?thesis by simp
next
  case (Some s)
  show ?thesis
  proof (cases s)
    case (Inl e)
    with Some assms show ?thesis by simp
  next
    case (Inr p)
    with Some assms that show ?thesis by (cases p) auto
  qed
qed

lemma ex_solve2:
  "(case solve 4 ex_cw2 (init_domains ex_cw2) of
      Some (Inr (r, d)) \<Rightarrow> r = Some [(ex_x, ''cd''), (ex_y, ''cde''), (ex_z, ''ef'')] \<and> d ex_x = Some [''cd'']
    | _ \<Rightarrow> False)"
  by code_simp

lemma ex_enforce2:
  "(case enforce_node_consistency ex_cw2 (init_domains ex_cw2) of
      Inr d \<Rightarrow> d ex_y = Some [''cde'', ''xyz''] | _ \<Rightarrow> False)"
  by code_simp

lemma ex_ac3_2:
  "(case ac3 ex_cw2 ex_doms2 None of
      Some (Inr (ok, d)) \<Rightarrow> ok \<and> d ex_z = Some [''ef''] | _ \<Rightarrow> False)"
  by code_simp

text \<open>
  C5. The domain of every variable after \<open>enforce_node_consistency\<close>, after
  \<open>revise\<close>, after \<open>ac3\<close> and after \<open>solve\<close> is a subset of its domain before the
  call. These are the only methods that write \<open>self.domains\<close>; \<open>consistent\<close>,
  \<open>order_domain_values\<close>, \<open>select_unassigned_variable\<close> and \<open>backtrack\<close> only read it.
\<close>

theorem domains_shrink:
  "(enforce_node_consistency cw doms = Inr doms' \<longrightarrow> domain_of doms' v \<subseteq> domain_of doms v) \<and>
   (revise cw doms x y = Inr (revised, doms') \<longrightarrow> domain_of doms' v \<subseteq> domain_of doms v) \<and>
   (ac3 cw doms arcs = Some (Inr (ok, doms')) \<longrightarrow> domain_of doms' v \<subseteq> domain_of doms v) \<and>
   (solve n cw doms = Some (Inr (result, doms')) \<longrightarrow> domain_of doms' v \<subseteq> domain_of doms v)"
proof (intro conjI impI)
  show "domain_of doms' v \<subseteq> domain_of doms v" if "enforce_node_consistency cw doms = Inr doms'"
    using that by (rule enforce_node_consistency_shrinks)
  show "domain_of doms' v \<subseteq> domain_of doms v" if "revise cw doms x y = Inr (revised, doms')"
    using that by (rule revise_shrinks)
  show "domain_of doms' v \<subseteq> domain_of doms v" if "ac3 cw doms arcs = Some (Inr (ok, doms'))"
    using that unfolding ac3_def by (rule ac3_loop_shrinks)
  show "domain_of doms' v \<subseteq> domain_of doms v" if s: "solve n cw doms = Some (Inr (result, doms'))"
  proof -
    from s obtain d1 ok where 1: "enforce_node_consistency cw doms = Inr d1"
      and 2: "ac3 cw d1 None = Some (Inr (ok, doms'))"
      by (auto simp: solve_def split: sum.splits option.splits)
    from enforce_node_consistency_shrinks[OF 1, of v] ac3_loop_shrinks[OF 2[unfolded ac3_def], of v]
    show ?thesis by blast
  qed
qed



theorem domains_shrink_witness:
  "(\<exists>d. enforce_node_consistency ex_cw2 (init_domains ex_cw2) = Inr d \<and>
        d ex_y = Some [''cde'', ''xyz''] \<and>
        domain_of d ex_y \<subseteq> domain_of (init_domains ex_cw2) ex_y) \<and>
   revise ex_cw2 ex_doms2 ex_x ex_y = Inr (True, ex_doms2(ex_x \<mapsto> [''cd''])) \<and>
   domain_of (ex_doms2(ex_x \<mapsto> [''cd''])) ex_x \<subseteq> domain_of ex_doms2 ex_x \<and>
   (\<exists>d. ac3 ex_cw2 ex_doms2 None = Some (Inr (True, d)) \<and> d ex_z = Some [''ef''] \<and>
        domain_of d ex_z \<subseteq> domain_of ex_doms2 ex_z) \<and>
   (\<exists>d. solve 4 ex_cw2 (init_domains ex_cw2) =
          Some (Inr (Some [(ex_x, ''cd''), (ex_y, ''cde''), (ex_z, ''ef'')], d)) \<and>
        d ex_x = Some [''cd''] \<and>
        domain_of d ex_x \<subseteq> domain_of (init_domains ex_cw2) ex_x)"
proof -
  from ex_enforce2 obtain d1 where k1: "enforce_node_consistency ex_cw2 (init_domains ex_cw2) = Inr d1"
    and k1': "d1 ex_y = Some [''cde'', ''xyz'']"
    by (auto split: sum.splits)
  from ex_ac3_2 obtain d2 where k2: "ac3 ex_cw2 ex_doms2 None = Some (Inr (True, d2))"
    and k2': "d2 ex_z = Some [''ef'']"
    by (rule run_resultE) auto
  from ex_solve2 obtain d3 where k3: "solve 4 ex_cw2 (init_domains ex_cw2) =
          Some (Inr (Some [(ex_x, ''cd''), (ex_y, ''cde''), (ex_z, ''ef'')], d3))"
    and k3': "d3 ex_x = Some [''cd'']"
    by (rule run_resultE) auto
  have a: "domain_of d1 ex_y \<subseteq> domain_of (init_domains ex_cw2) ex_y"
    using domains_shrink[of ex_cw2 "init_domains ex_cw2" d1 ex_y] k1 by blast
  have b: "domain_of (ex_doms2(ex_x \<mapsto> [''cd''])) ex_x \<subseteq> domain_of ex_doms2 ex_x"
    using domains_shrink[of ex_cw2 ex_doms2 "ex_doms2(ex_x \<mapsto> [''cd''])" ex_x ex_x ex_y True]
      ex_revise_xy by blast
  have c: "domain_of d2 ex_z \<subseteq> domain_of ex_doms2 ex_z"
    using domains_shrink[of ex_cw2 ex_doms2 d2 ex_z _ _ _ None True] k2 by blast
  have d: "domain_of d3 ex_x \<subseteq> domain_of (init_domains ex_cw2) ex_x"
    using domains_shrink[of ex_cw2 "init_domains ex_cw2" d3 ex_x _ _ _ _ _ 4] k3 by blast
  from k1 k1' k2 k2' k3 k3' a b c d ex_revise_xy show ?thesis by blast
qed

subsection \<open>What backtrack returns\<close>

text \<open>
  The variable that \<open>select_unassigned_variable\<close> returns is a variable of the puzzle
  with no entry in the assignment, and no unassigned variable has a smaller domain.
\<close>

lemma delete_update_fresh:
  "map_of a var = None \<Longrightarrow> AList.delete var (AList.update var val a) = a"
proof -
  assume "map_of a var = None"
  then have "var \<notin> fst ` set a" by (simp add: map_of_eq_None_iff)
  then show ?thesis
    by (induction a) auto
qed

lemma unassigned_vars_result:
  "unassigned_vars doms a vars = Inr ps \<Longrightarrow>
     map fst ps = filter (\<lambda>v. map_of a v = None) vars \<and>
     (\<forall>p \<in> set ps. doms (fst p) \<noteq> None \<and> snd p = domain_size doms (fst p))"
proof (induction vars arbitrary: ps)
  case Nil
  then show ?case by simp
next
  case (Cons var vars)
  show ?case
  proof (cases "map_of a var \<noteq> None")
    case True
    with Cons show ?thesis by simp
  next
    case False
    with Cons.prems obtain ws qs where ws: "doms var = Some ws"
      and qs: "unassigned_vars doms a vars = Inr qs" and ps: "ps = (var, length ws) # qs"
      by (auto split: option.splits sum.splits)
    from Cons.IH[OF qs] False ws ps show ?thesis
      by (simp add: domain_size_def)
  qed
qed

lemma min_by_size_mem: "min_by_size best ps \<in> set (best # ps)"
  by (induction ps arbitrary: best) auto

lemma min_by_size_le: "p \<in> set (best # ps) \<Longrightarrow> snd (min_by_size best ps) \<le> snd p"
proof (induction ps arbitrary: best p)
  case Nil
  then show ?case by simp
next
  case (Cons q ps)
  have best: "snd (min_by_size b ps) \<le> snd b" for b
    using Cons.IH[of b b] by simp
  from Cons.prems consider "p = best" | "p = q" | "p \<in> set ps" by auto
  then show ?case
  proof cases
    case 1
    show ?thesis
    proof (cases "snd q < snd best")
      case True
      with best[of q] 1 show ?thesis by simp
    next
      case False
      with best[of best] 1 show ?thesis by simp
    qed
  next
    case 2
    show ?thesis
    proof (cases "snd q < snd best")
      case True
      with best[of q] 2 show ?thesis by simp
    next
      case False
      with best[of best] 2 show ?thesis by simp
    qed
  next
    case 3
    then show ?thesis using Cons.IH[of p] by simp
  qed
qed

lemma select_unassigned_variable_result:
  assumes "select_unassigned_variable cw doms a = Inr var"
  shows "var \<in> set (variables cw) \<and> map_of a var = None \<and> doms var \<noteq> None \<and>
     (\<forall>v \<in> set (variables cw). map_of a v = None \<longrightarrow>
        doms v \<noteq> None \<and> domain_size doms var \<le> domain_size doms v)"
proof -
  from assms obtain p ps where u: "unassigned_vars doms a (variables cw) = Inr (p # ps)"
    and var: "var = fst (min_by_size p ps)"
    by (auto simp: select_unassigned_variable_def split: sum.splits list.splits)
  note r = unassigned_vars_result[OF u]
  let ?m = "min_by_size p ps"
  have m: "?m \<in> set (p # ps)" by (rule min_by_size_mem)
  then have "fst ?m \<in> set (map fst (p # ps))" by (simp del: set_simps list.simps)
  with r var have 1: "var \<in> set (variables cw) \<and> map_of a var = None" by simp
  from r m var have 2: "doms var \<noteq> None" and 3: "snd ?m = domain_size doms var" by auto
  have 4: "doms v \<noteq> None \<and> domain_size doms var \<le> domain_size doms v"
    if v: "v \<in> set (variables cw)" "map_of a v = None" for v
  proof -
    from v r have "v \<in> set (map fst (p # ps))" by simp
    then have "v \<in> fst ` set (p # ps)" by (simp only: set_map)
    then obtain q where q: "q \<in> set (p # ps)" "fst q = v" by blast
    from min_by_size_le[OF q(1)] 3 r q show ?thesis by auto
  qed
  from 1 2 4 show ?thesis by blast
qed

text \<open>
  A call that fails leaves the assignment as it found it. A call that succeeds returns
  the assignment it leaves, which covers every variable and is the assignment it was
  given or has passed \<open>consistent\<close>.
\<close>

lemma backtrack_result:
  "backtrack n cw doms a = Some (Inr (res, a')) \<Longrightarrow>
     (res = None \<longrightarrow> a' = a) \<and>
     (\<forall>s. res = Some s \<longrightarrow>
        a' = s \<and> assignment_complete cw s \<and> (s = a \<or> consistent cw s = Inr True))"
  and backtrack_values_result:
  "backtrack_values n cw doms var vals a = Some (Inr (res, a')) \<Longrightarrow> map_of a var = None \<Longrightarrow>
     (res = None \<longrightarrow> a' = a) \<and>
     (\<forall>s. res = Some s \<longrightarrow>
        a' = s \<and> assignment_complete cw s \<and> consistent cw s = Inr True)"
proof (induction n cw doms a and n cw doms var vals a arbitrary: res a' and res a'
    rule: backtrack_backtrack_values.induct)
  case (1 cw doms a)
  then show ?case by simp
next
  case (2 n cw doms a)
  show ?case
  proof (cases "assignment_complete cw a")
    case True
    with 2(2) show ?thesis by auto
  next
    case False
    with 2(2) obtain var vals where s: "select_unassigned_variable cw doms a = Inr var"
      and o: "order_domain_values cw doms var a = Inr vals"
      and v: "backtrack_values n cw doms var vals a = Some (Inr (res, a'))"
      by (auto split: sum.splits)
    have u: "map_of a var = None"
      using select_unassigned_variable_result[OF s] by simp
    from 2(1)[OF False s o v u] show ?thesis by auto
  qed
next
  case (3 n cw doms var a)
  then show ?case by simp
next
  case (4 n cw doms var val vals a)
  let ?a1 = "AList.update var val a"
  have del: "AList.delete var ?a1 = a"
    using 4(5) by (rule delete_update_fresh)
  from 4(4) obtain ok where c: "consistent cw ?a1 = Inr ok"
    by (auto split: sum.splits)
  show ?case
  proof (cases ok)
    case False
    with 4(4) c del have "backtrack_values n cw doms var vals a = Some (Inr (res, a'))"
      by simp
    from 4(3)[OF c False, unfolded del, OF this 4(5)] show ?thesis .
  next
    case True
    with 4(4) c obtain r1 a2 where b: "backtrack n cw doms ?a1 = Some (Inr (r1, a2))"
      by (auto split: option.splits sum.splits)
    note ih = 4(1)[OF c True b]
    show ?thesis
    proof (cases "r1 \<noteq> None \<and> r1 \<noteq> Some []")
      case True
      with 4(4) c \<open>ok\<close> b have "res = r1" "a' = a2" by simp_all
      with ih c \<open>ok\<close> True show ?thesis by auto
    next
      case False
      show ?thesis
      proof (cases r1)
        case None
        with ih have a2: "a2 = ?a1" by simp
        then have m: "map_of a2 var \<noteq> None" by (simp add: update_conv')
        from 4(4) c \<open>ok\<close> b None m a2 del
        have v: "backtrack_values n cw doms var vals a = Some (Inr (res, a'))"
          by (simp add: update_conv')
        note ih2 = 4(2)[OF c \<open>ok\<close> b refl refl False m]
        from ih2[unfolded a2 del, OF v 4(5)] show ?thesis .
      next
        case (Some s)
        with False have s: "s = []" by simp
        with ih Some have "a2 = []" by simp
        with 4(4) c \<open>ok\<close> b Some s show ?thesis by simp
      qed
    qed
  qed
qed

text \<open>
  Fuel above the number of open variables is enough: each nested call has one open
  variable less, so \<open>backtrack\<close> returns, and so does \<open>solve\<close> with fuel above the
  number of variables.
\<close>

lemma unassigned_count_update:
  assumes "var \<in> set (variables cw)" "map_of a var = None"
  shows "unassigned_count cw (AList.update var val a) < unassigned_count cw a"
proof -
  have "length (filter (\<lambda>v. map_of (AList.update var val a) v = None) vars)
          \<le> length (filter (\<lambda>v. map_of a v = None) vars) \<and>
        (var \<in> set vars \<longrightarrow>
           length (filter (\<lambda>v. map_of (AList.update var val a) v = None) vars)
             < length (filter (\<lambda>v. map_of a v = None) vars))" for vars
    using assms(2) by (induction vars) (auto simp: update_conv')
  with assms(1) show ?thesis by (simp add: unassigned_count_def)
qed

lemma backtrack_returns:
  "unassigned_count cw a < n \<Longrightarrow> \<exists>r. backtrack n cw doms a = Some r"
  and backtrack_values_returns:
  "map_of a var = None \<Longrightarrow> var \<in> set (variables cw) \<Longrightarrow> unassigned_count cw a \<le> n \<Longrightarrow>
     \<exists>r. backtrack_values n cw doms var vals a = Some r"
proof (induction n cw doms a and n cw doms var vals a rule: backtrack_backtrack_values.induct)
  case (1 cw doms a)
  then show ?case by simp
next
  case (2 n cw doms a)
  show ?case
  proof (cases "assignment_complete cw a")
    case True
    then show ?thesis by simp
  next
    case False
    show ?thesis
    proof (cases "select_unassigned_variable cw doms a")
      case (Inl e)
      with False show ?thesis by simp
    next
      case (Inr var)
      show ?thesis
      proof (cases "order_domain_values cw doms var a")
        case (Inl e)
        with False Inr show ?thesis by simp
      next
        case vals: (Inr vals)
        from select_unassigned_variable_result[OF Inr]
        have "map_of a var = None" "var \<in> set (variables cw)" by simp_all
        from 2(1)[OF False Inr vals this] 2(2) False Inr vals show ?thesis by simp
      qed
    qed
  qed
next
  case (3 n cw doms var a)
  then show ?case by simp
next
  case (4 n cw doms var val vals a)
  let ?a1 = "AList.update var val a"
  have del: "AList.delete var ?a1 = a"
    using 4(4) by (rule delete_update_fresh)
  show ?case
  proof (cases "consistent cw ?a1")
    case (Inl e)
    then show ?thesis by simp
  next
    case (Inr ok)
    show ?thesis
    proof (cases ok)
      case False
      from 4(3)[OF Inr False, unfolded del, OF 4(4,5,6)] Inr False del show ?thesis by simp
    next
      case True
      from unassigned_count_update[OF 4(5,4), of val] 4(6)
      have "unassigned_count cw ?a1 < n" by simp
      from 4(1)[OF Inr True this] obtain r1 where b: "backtrack n cw doms ?a1 = Some r1" by blast
      show ?thesis
      proof (cases r1)
        case (Inl e)
        with Inr True b show ?thesis by simp
      next
        case r: (Inr p)
        obtain res a2 where p: "p = (res, a2)" by (cases p)
        with b r have b': "backtrack n cw doms ?a1 = Some (Inr (res, a2))" by simp
        show ?thesis
        proof (cases "res \<noteq> None \<and> res \<noteq> Some []")
          case True
          with Inr \<open>ok\<close> b' show ?thesis by simp
        next
          case falsy: False
          show ?thesis
          proof (cases "map_of a2 var = None")
            case True
            with Inr \<open>ok\<close> b' falsy show ?thesis by simp
          next
            case False
            have "res = None"
            proof (rule ccontr)
              assume "res \<noteq> None"
              with falsy have "res = Some []" by simp
              with backtrack_result[OF b'] have "a2 = []" by simp
              with False show False by simp
            qed
            with backtrack_result[OF b'] have a2: "a2 = ?a1" by simp
            note ih = 4(2)[OF Inr \<open>ok\<close> b' refl refl falsy False]
            from ih[unfolded a2 del, OF 4(4,5,6)] Inr \<open>ok\<close> b' falsy False a2 del
            show ?thesis by simp
          qed
        qed
      qed
    qed
  qed
qed

lemma solve_returns:
  assumes "length (variables cw) < n"
  shows "\<exists>r. solve n cw doms = Some r"
proof (cases "enforce_node_consistency cw doms")
  case (Inl e)
  then show ?thesis by (simp add: solve_def)
next
  case (Inr d1)
  from ac3_loop_returns obtain r where r: "ac3 cw d1 None = Some r"
    unfolding ac3_def by blast
  show ?thesis
  proof (cases r)
    case (Inl e)
    with Inr r show ?thesis by (simp add: solve_def)
  next
    case p: (Inr p)
    obtain ok d2 where "p = (ok, d2)" by (cases p)
    with p r have a: "ac3 cw d1 None = Some (Inr (ok, d2))" by simp
    have "unassigned_count cw [] < n"
      using assms by (simp add: unassigned_count_def)
    from backtrack_returns[OF this] obtain b where b: "backtrack n cw d2 [] = Some b" by blast
    show ?thesis
    proof (cases b)
      case (Inl e)
      with Inr a b show ?thesis by (simp add: solve_def)
    next
      case q: (Inr q)
      with Inr a b show ?thesis by (cases q) (simp add: solve_def)
    qed
  qed
qed

text \<open>
  C8. When \<open>backtrack(assignment)\<close> returns None, the assignment holds the entries, in
  the order, that it held when the call was entered.
\<close>

theorem backtrack_restores:
  "backtrack n cw doms a = Some (Inr (None, a')) \<Longrightarrow> a' = a"
  using backtrack_result[of n cw doms a None a'] by simp

theorem backtrack_restores_witness:
  "backtrack 2 ex_cw ex_doms1 [(ex_x, ''ab'')] = Some (Inr (None, [(ex_x, ''ab'')])) \<and>
   backtrack 3 ex_cw ex_doms1 [] = Some (Inr (None, []))"
proof -
  have 1: "backtrack 2 ex_cw ex_doms1 [(ex_x, ''ab'')] = Some (Inr (None, [(ex_x, ''ab'')]))"
    by code_simp
  have 2: "backtrack 3 ex_cw ex_doms1 [] = Some (Inr (None, []))"
    by code_simp
  from backtrack_restores[OF 1] backtrack_restores[OF 2] 1 2 show ?thesis by simp
qed

subsection \<open>What a consistent assignment satisfies\<close>

lemma consistent_neighbors_True:
  "consistent_neighbors cw a var ns = Inr True \<Longrightarrow> map_of a var = Some word_v \<Longrightarrow>
     n \<in> set ns \<Longrightarrow> map_of a n = Some word_n \<Longrightarrow>
     \<exists>i j. overlaps cw (var, n) = Some (i, j) \<and> agree_at i j word_v word_n"
proof (induction ns)
  case Nil
  then show ?case by simp
next
  case (Cons m ns)
  show ?case
  proof (cases "map_of a m")
    case None
    with Cons show ?thesis by auto
  next
    case (Some word_m)
    with Cons.prems(1,2) obtain i j where o: "overlaps cw (var, m) = Some (i, j)"
      and ag: "agree_at i j word_v word_m"
      and rest: "consistent_neighbors cw a var ns = Inr True"
      by (auto simp: char_at_def agree_at_def split: option.splits sum.splits if_splits)
    show ?thesis
    proof (cases "n = m")
      case True
      with Some Cons.prems(4) o ag show ?thesis by simp
    next
      case False
      with Cons.prems(3) have "n \<in> set ns" by simp
      from Cons.IH[OF rest Cons.prems(2) this Cons.prems(4)] show ?thesis .
    qed
  qed
qed

lemma consistent_loop_True:
  "consistent_loop cw a vars seen = Inr True \<Longrightarrow>
     (\<forall>v \<in> set vars. \<forall>w. map_of a v = Some w \<longrightarrow>
        length w = var_length v \<and>
        consistent_neighbors cw a v (neighbors cw v) = Inr True) \<and>
     distinct (assigned_words_of a vars) \<and> set (assigned_words_of a vars) \<inter> seen = {}"
proof (induction vars arbitrary: seen)
  case Nil
  then show ?case by (simp add: assigned_words_of_def)
next
  case (Cons var vars)
  show ?case
  proof (cases "map_of a var")
    case None
    with Cons.prems have "consistent_loop cw a vars seen = Inr True" by simp
    from Cons.IH[OF this] None show ?thesis by (auto simp: assigned_words_of_def)
  next
    case (Some word)
    with Cons.prems have len: "length word = var_length var"
      and nb: "consistent_neighbors cw a var (neighbors cw var) = Inr True"
      and fresh: "word \<notin> seen"
      and rest: "consistent_loop cw a vars (insert word seen) = Inr True"
      by (auto split: if_splits sum.splits)
    from Cons.IH[OF rest] Some len nb fresh show ?thesis
      by (auto simp: assigned_words_of_def)
  qed
qed

lemma assigned_words_differ:
  assumes "distinct (assigned_words_of a vars)" "x \<in> set vars" "y \<in> set vars" "x \<noteq> y"
    "map_of a x = Some wx" "map_of a y = Some wy"
  shows "wx \<noteq> wy"
proof -
  let ?f = "\<lambda>v. the (map_of a v)"
  let ?vs = "filter (\<lambda>v. map_of a v \<noteq> None) vars"
  from assms(1) have "inj_on ?f (set ?vs)"
    unfolding assigned_words_of_def by (simp add: distinct_map)
  moreover from assms have "x \<in> set ?vs" "y \<in> set ?vs" by simp_all
  ultimately have "?f x \<noteq> ?f y" using assms(4) by (auto dest: inj_onD)
  with assms(5,6) show ?thesis by simp
qed

lemma consistent_True:
  assumes "consistent cw a = Inr True"
  shows "(\<forall>v \<in> set (variables cw). \<forall>w. map_of a v = Some w \<longrightarrow> length w = var_length v) \<and>
     (\<forall>x \<in> set (variables cw). \<forall>y \<in> set (variables cw). \<forall>i j wx wy.
        overlaps cw (x, y) = Some (i, j) \<and> map_of a x = Some wx \<and> map_of a y = Some wy \<longrightarrow>
        agree_at i j wx wy) \<and>
     (\<forall>x \<in> set (variables cw). \<forall>y \<in> set (variables cw). \<forall>wx wy.
        x \<noteq> y \<and> map_of a x = Some wx \<and> map_of a y = Some wy \<longrightarrow> wx \<noteq> wy)"
proof -
  note l = consistent_loop_True[OF assms[unfolded consistent_def]]
  have 1: "\<forall>v \<in> set (variables cw). \<forall>w. map_of a v = Some w \<longrightarrow> length w = var_length v"
    using l by blast
  have 2: "agree_at i j wx wy"
    if "x \<in> set (variables cw)" "y \<in> set (variables cw)" "overlaps cw (x, y) = Some (i, j)"
      "map_of a x = Some wx" "map_of a y = Some wy" for x y i j wx wy
  proof -
    from l that have c: "consistent_neighbors cw a x (neighbors cw x) = Inr True" by blast
    from that have n: "y \<in> set (neighbors cw x)" by (simp add: neighbors_def)
    from consistent_neighbors_True[OF c that(4) n that(5)] that(3) show ?thesis by simp
  qed
  have 3: "wx \<noteq> wy"
    if "x \<in> set (variables cw)" "y \<in> set (variables cw)" "x \<noteq> y"
      "map_of a x = Some wx" "map_of a y = Some wy" for x y wx wy
    using assigned_words_differ[OF _ that] l by blast
  from 1 2 3 show ?thesis by blast
qed

lemma solve_result:
  assumes "solve n cw doms = Some (Inr (Some s, d))"
  shows "assignment_complete cw s \<and> consistent cw s = Inr True"
proof -
  from assms obtain d2 a' where b: "backtrack n cw d2 [] = Some (Inr (Some s, a'))"
    by (auto simp: solve_def split: sum.splits option.splits)
  from backtrack_result[OF b] have c: "assignment_complete cw s"
    and e: "s = [] \<or> consistent cw s = Inr True" by auto
  from e show ?thesis
  proof
    assume "s = []"
    with c have "variables cw = []"
      by (cases "variables cw") (simp_all add: assignment_complete_def)
    with c show ?thesis by (simp add: consistent_def)
  next
    assume "consistent cw s = Inr True"
    with c show ?thesis by simp
  qed
qed

lemma ex_cw2_vars: "ex_x \<in> set (variables ex_cw2)" "ex_y \<in> set (variables ex_cw2)"
  "ex_z \<in> set (variables ex_cw2)"
  by (simp_all add: ex_cw2_def)

text \<open>
  C2. An assignment that \<open>solve\<close> returns gives every variable of the puzzle a word of
  the variable's length; for every two variables with a recorded overlap the two
  words agree at the recorded positions; and two different variables never have the
  same word.
\<close>

theorem solve_assignment_complete_consistent:
  assumes "solve n cw doms = Some (Inr (Some s, d))"
  shows "(\<forall>v \<in> set (variables cw). \<exists>w. map_of s v = Some w \<and> length w = var_length v) \<and>
     (\<forall>x \<in> set (variables cw). \<forall>y \<in> set (variables cw). \<forall>i j wx wy.
        overlaps cw (x, y) = Some (i, j) \<and> map_of s x = Some wx \<and> map_of s y = Some wy \<longrightarrow>
        agree_at i j wx wy) \<and>
     (\<forall>x \<in> set (variables cw). \<forall>y \<in> set (variables cw). \<forall>wx wy.
        x \<noteq> y \<and> map_of s x = Some wx \<and> map_of s y = Some wy \<longrightarrow> wx \<noteq> wy)"
proof -
  from solve_result[OF assms] have c: "assignment_complete cw s"
    and k: "consistent cw s = Inr True" by simp_all
  note t = consistent_True[OF k]
  have "\<exists>w. map_of s v = Some w \<and> length w = var_length v" if "v \<in> set (variables cw)" for v
  proof -
    from c that obtain w where "map_of s v = Some w"
      by (auto simp: assignment_complete_def list_all_iff)
    with t that show ?thesis by blast
  qed
  with t show ?thesis by blast
qed

theorem solve_assignment_complete_consistent_witness:
  "\<exists>d. solve 4 ex_cw2 (init_domains ex_cw2) =
          Some (Inr (Some [(ex_x, ''cd''), (ex_y, ''cde''), (ex_z, ''ef'')], d)) \<and>
        (\<exists>w. map_of [(ex_x, ''cd''), (ex_y, ''cde''), (ex_z, ''ef'')] ex_z = Some w \<and>
              length w = var_length ex_z) \<and>
        agree_at 2 0 ''cde'' ''ef'' \<and> ''cd'' \<noteq> ''ef''"
proof -
  let ?s = "[(ex_x, ''cd''), (ex_y, ''cde''), (ex_z, ''ef'')]"
  from ex_solve2 obtain d where s: "solve 4 ex_cw2 (init_domains ex_cw2) = Some (Inr (Some ?s, d))"
    by (rule run_resultE) auto
  note t = solve_assignment_complete_consistent[OF s]
  have o: "overlaps ex_cw2 (ex_y, ex_z) = Some (2, 0)"
    by (simp add: ex_cw2_def ex_distinct)
  have mx: "map_of ?s ex_x = Some ''cd''" and my: "map_of ?s ex_y = Some ''cde''"
    and mz: "map_of ?s ex_z = Some ''ef''"
    by (simp_all add: ex_distinct)
  from t ex_cw2_vars(3) have 1: "\<exists>w. map_of ?s ex_z = Some w \<and> length w = var_length ex_z"
    by blast
  from t ex_cw2_vars o my mz have 2: "agree_at 2 0 ''cde'' ''ef''" by blast
  from t ex_cw2_vars ex_distinct(2) mx mz have 3: "''cd'' \<noteq> ''ef''" by blast
  from s 1 2 3 show ?thesis by blast
qed

subsection \<open>Search with an empty domain\<close>

lemma unassigned_vars_keyed:
  "\<forall>v \<in> set vars. map_of a v = None \<longrightarrow> doms v \<noteq> None \<Longrightarrow>
     \<exists>ps. unassigned_vars doms a vars = Inr ps"
  by (induction vars) (auto split: option.splits)

lemma select_unassigned_variable_returns:
  assumes "\<forall>v \<in> set (variables cw). doms v \<noteq> None" "\<not> assignment_complete cw a"
  shows "\<exists>var. select_unassigned_variable cw doms a = Inr var"
proof -
  from assms(1) obtain ps where ps: "unassigned_vars doms a (variables cw) = Inr ps"
    using unassigned_vars_keyed[of "variables cw" a doms] by blast
  from assms(2) obtain v where "v \<in> set (variables cw)" "map_of a v = None"
    by (auto simp: assignment_complete_def list_all_iff)
  then have "filter (\<lambda>v. map_of a v = None) (variables cw) \<noteq> []"
    by (auto simp: filter_empty_conv)
  with unassigned_vars_result[OF ps] have "ps \<noteq> []" by auto
  with ps show ?thesis
    by (cases ps) (simp_all add: select_unassigned_variable_def)
qed

lemma backtrack_empty_domain:
  assumes v: "v \<in> set (variables cw)" "doms v = Some []"
    and keyed: "\<forall>u \<in> set (variables cw). doms u \<noteq> None"
  shows "\<exists>var. select_unassigned_variable cw doms [] = Inr var \<and>
           order_domain_values cw doms var [] = Inr [] \<and>
           backtrack (Suc n) cw doms [] = Some (Inr (None, []))"
proof -
  from v have nc: "\<not> assignment_complete cw []"
    by (auto simp: assignment_complete_def list_all_iff)
  from select_unassigned_variable_returns[OF keyed nc]
  obtain var where s: "select_unassigned_variable cw doms [] = Inr var" by blast
  from select_unassigned_variable_result[OF s] v
  have "doms var \<noteq> None" "domain_size doms var \<le> domain_size doms v" by auto
  with v(2) have e: "doms var = Some []" by (auto simp: domain_size_def)
  then have o: "order_domain_values cw doms var [] = Inr []"
    by (simp add: order_domain_values_def)
  from nc s o have "backtrack (Suc n) cw doms [] = Some (Inr (None, []))" by simp
  with s o show ?thesis by blast
qed

lemma ac3_loop_related:
  assumes "ac3_loop cw doms queue = Some (Inr (ok, doms'))"
    and refl: "\<And>d. R d d"
    and trans: "\<And>d1 d2 d3. R d1 d2 \<Longrightarrow> R d2 d3 \<Longrightarrow> R d1 d3"
    and step: "\<And>d x y r d'. revise cw d x y = Inr (r, d') \<Longrightarrow> R d d'"
  shows "R doms doms'"
  using assms(1)
proof (induction doms queue rule: ac3_loop_induct[where cw = cw])
  case (1 doms queue)
  show ?case
  proof (cases queue)
    case Nil
    with 1(3) show ?thesis by (simp add: ac3_loop_Nil refl)
  next
    case (Cons a rest)
    obtain x y where a: "a = (x, y)" by (cases a)
    show ?thesis
    proof (cases "revise cw doms x y")
      case (Inl e)
      with Cons a 1(3) show ?thesis by (simp add: ac3_loop_error)
    next
      case (Inr rd)
      obtain revised d1 where rd: "rd = (revised, d1)" by (cases rd)
      with Inr have r0: "revise cw doms x y = Inr (revised, d1)" by simp
      note sh = step[OF r0]
      show ?thesis
      proof (cases revised)
        case False
        with r0 have r: "revise cw doms x y = Inr (False, d1)" by simp
        from 1(3) Cons a ac3_loop_unrevised[OF r]
        have "ac3_loop cw d1 rest = Some (Inr (ok, doms'))" by simp
        from trans[OF sh 1(1)[OF _ r this]] Cons a show ?thesis by simp
      next
        case True
        with r0 have r: "revise cw doms x y = Inr (True, d1)" by simp
        show ?thesis
        proof (cases "d1 x")
          case None
          with r Cons a 1(3) show ?thesis by (subst (asm) ac3_loop.simps) simp
        next
          case (Some dx)
          show ?thesis
          proof (cases "dx = []")
            case True
            with Some r Cons a 1(3) sh show ?thesis by (auto simp: ac3_loop_emptied)
          next
            case False
            from 1(3) Cons a ac3_loop_revised[OF r Some False]
            have "ac3_loop cw d1 (rest @ ac3_requeue cw x y) = Some (Inr (ok, doms'))" by simp
            from trans[OF sh 1(2)[OF _ r Some False this]] Cons a show ?thesis by simp
          qed
        qed
      qed
    qed
  qed
qed

lemma revise_keys:
  assumes "revise cw doms x y = Inr (revised, doms')"
  shows "\<forall>v. doms' v = None \<longleftrightarrow> doms v = None"
proof
  fix v
  show "doms' v = None \<longleftrightarrow> doms v = None"
    using revise_frame[OF assms] by (cases "v = x") auto
qed

lemma ac3_loop_keys:
  assumes "ac3_loop cw doms queue = Some (Inr (ok, doms'))"
  shows "\<forall>v. doms' v = None \<longleftrightarrow> doms v = None"
  using assms
proof (rule ac3_loop_related)
  show "\<forall>v. d v = None \<longleftrightarrow> d v = None" for d :: domains by simp
  show "\<forall>v. d3 v = None \<longleftrightarrow> d1 v = None"
    if "\<forall>v. d2 v = None \<longleftrightarrow> d1 v = None" "\<forall>v. d3 v = None \<longleftrightarrow> d2 v = None"
    for d1 d2 d3 :: domains
    using that by simp
  show "\<forall>v. d' v = None \<longleftrightarrow> d v = None" if "revise cw d x y = Inr (r, d')" for d x y r d'
    using that by (rule revise_keys)
qed

lemma enforce_node_consistency_keyed:
  assumes "enforce_node_consistency cw doms = Inr doms'"
  shows "\<forall>v \<in> set (variables cw). doms' v \<noteq> None"
  using enforce_node_consistency_loop_result[OF assms[unfolded enforce_node_consistency_def]]
  by auto

lemma solve_empty_domain:
  assumes e: "enforce_node_consistency cw doms = Inr d1"
    and a: "ac3 cw d1 None = Some (Inr (ok, d2))"
    and v: "v \<in> set (variables cw)" "d2 v = Some []"
  shows "solve (Suc n) cw doms = Some (Inr (None, d2)) \<and> solve 0 cw doms = None"
proof -
  have keyed: "\<forall>u \<in> set (variables cw). d2 u \<noteq> None"
    using enforce_node_consistency_keyed[OF e] ac3_loop_keys[OF a[unfolded ac3_def]] by simp
  from backtrack_empty_domain[OF v keyed, of n]
  have "backtrack (Suc n) cw d2 [] = Some (Inr (None, []))" by blast
  with e a show ?thesis by (simp add: solve_def)
qed

lemma ex_ac3_fails:
  "(case enforce_node_consistency ex_cw (init_domains ex_cw) of
      Inr d1 \<Rightarrow>
        (case ac3 ex_cw d1 None of
           Some (Inr (ok, d2)) \<Rightarrow> \<not> ok \<and> d2 ex_x = Some [] \<and> d2 ex_y = Some [''cde'']
         | _ \<Rightarrow> False)
    | _ \<Rightarrow> False)"
  by code_simp

lemma ex_ac3_failsE:
  obtains d1 d2 where "enforce_node_consistency ex_cw (init_domains ex_cw) = Inr d1"
    "ac3 ex_cw d1 None = Some (Inr (False, d2))" "d2 ex_x = Some []" "d2 ex_y = Some [''cde'']"
proof (cases "enforce_node_consistency ex_cw (init_domains ex_cw)")
  case (Inl e)
  with ex_ac3_fails show ?thesis by simp
next
  case (Inr d1)
  with ex_ac3_fails
  have "case ac3 ex_cw d1 None of
           Some (Inr (ok, d2)) \<Rightarrow> \<not> ok \<and> d2 ex_x = Some [] \<and> d2 ex_y = Some [''cde'']
         | _ \<Rightarrow> False" by simp
  then obtain ok d2 where "ac3 ex_cw d1 None = Some (Inr (ok, d2))"
    "\<not> ok \<and> d2 ex_x = Some [] \<and> d2 ex_y = Some [''cde'']"
    by (rule run_resultE)
  with Inr that show ?thesis by simp
qed

text \<open>
  C9. Let every variable of the puzzle have a domain and let the domain of one of them
  be empty. Then \<open>backtrack({})\<close> selects a variable whose ordered list of values is
  empty, so it assigns nothing and returns None, at the first level of the recursion.
  When these are the domains that \<open>ac3\<close> leaves inside \<open>solve\<close>, whatever \<open>ac3\<close>
  returned, \<open>solve\<close> returns None.
\<close>

theorem empty_domain_no_solution:
  assumes "v \<in> set (variables cw)" "doms v = Some []" "\<forall>u \<in> set (variables cw). doms u \<noteq> None"
  shows "(\<exists>var. select_unassigned_variable cw doms [] = Inr var \<and>
            order_domain_values cw doms var [] = Inr []) \<and>
         backtrack (Suc n) cw doms [] = Some (Inr (None, [])) \<and>
         (\<forall>doms0 d1 ok. enforce_node_consistency cw doms0 = Inr d1 \<and>
             ac3 cw d1 None = Some (Inr (ok, doms)) \<longrightarrow>
             solve (Suc n) cw doms0 = Some (Inr (None, doms)))"
proof -
  from backtrack_empty_domain[OF assms, of n] have 1:
    "(\<exists>var. select_unassigned_variable cw doms [] = Inr var \<and>
            order_domain_values cw doms var [] = Inr []) \<and>
         backtrack (Suc n) cw doms [] = Some (Inr (None, []))" by blast
  have "solve (Suc n) cw doms0 = Some (Inr (None, doms))"
    if "enforce_node_consistency cw doms0 = Inr d1" "ac3 cw d1 None = Some (Inr (ok, doms))"
    for doms0 d1 ok
    using solve_empty_domain[OF that assms(1,2)] by simp
  with 1 show ?thesis by blast
qed

theorem empty_domain_no_solution_witness:
  "\<exists>d. d ex_x = Some [] \<and> d ex_y = Some [''cde''] \<and>
        (\<exists>var. select_unassigned_variable ex_cw d [] = Inr var \<and>
               order_domain_values ex_cw d var [] = Inr []) \<and>
        backtrack (Suc 0) ex_cw d [] = Some (Inr (None, [])) \<and>
        solve (Suc 0) ex_cw (init_domains ex_cw) = Some (Inr (None, d))"
proof -
  obtain d1 d2 where e: "enforce_node_consistency ex_cw (init_domains ex_cw) = Inr d1"
    and a: "ac3 ex_cw d1 None = Some (Inr (False, d2))"
    and dx: "d2 ex_x = Some []" and dy: "d2 ex_y = Some [''cde'']"
    by (rule ex_ac3_failsE)
  have v: "ex_x \<in> set (variables ex_cw)" by (simp add: ex_cw_def)
  have k: "\<forall>u \<in> set (variables ex_cw). d2 u \<noteq> None"
    using dx dy by (simp add: ex_cw_def)
  note t = empty_domain_no_solution[OF v dx k, of 0]
  from t e a have "solve (Suc 0) ex_cw (init_domains ex_cw) = Some (Inr (None, d2))" by blast
  with t dx dy show ?thesis by blast
qed

subsection \<open>solve after a failed propagation\<close>

text \<open>
  C1 as the spec states it fails: \<open>solve\<close> has no branch on the value that \<open>ac3\<close>
  returns. In \<open>ex_cw\<close> the propagation reports failure; the spec's \<open>solve\<close> then
  returns "no solution" with no fuel for a call of \<open>backtrack\<close>, and the \<open>solve\<close> of
  the code does not return without that fuel: it enters \<open>backtrack\<close>.
\<close>

theorem solve_without_short_circuit_counterexample:
  "ac3_report ex_cw (init_domains ex_cw) = Some (Inr False) \<and>
   outcome (solve_spec 0 ex_cw (init_domains ex_cw)) = Some (Inr None) \<and>
   outcome (solve 0 ex_cw (init_domains ex_cw)) = None \<and>
   outcome (solve 1 ex_cw (init_domains ex_cw)) = Some (Inr None)"
  by code_simp

text \<open>
  C1, amended. Given fuel for one call of \<open>backtrack\<close>, the \<open>solve\<close> of the code and
  the \<open>solve\<close> of the spec return the same result. When \<open>ac3\<close> reports failure,
  \<open>solve\<close> calls \<open>backtrack({})\<close> (with no fuel for it, it does not return), that call
  needs no nested call and \<open>solve\<close> returns None.
\<close>

theorem solve_after_failed_ac3:
  "outcome (solve (Suc n) cw doms) = outcome (solve_spec (Suc n) cw doms) \<and>
   (ac3_report cw doms = Some (Inr False) \<longrightarrow>
      outcome (solve (Suc n) cw doms) = Some (Inr None) \<and> solve 0 cw doms = None)"
proof -
  have main: "solve (Suc n) cw doms = Some (Inr (None, d2)) \<and> solve 0 cw doms = None"
    if e: "enforce_node_consistency cw doms = Inr d1"
      and a: "ac3 cw d1 None = Some (Inr (False, d2))" for d1 d2
  proof -
    from ac3_loop_False_emptied[OF a[unfolded ac3_def, simplified]] all_arcs_fst[of cw]
    obtain v where "v \<in> set (variables cw)" "d2 v = Some []" by auto
    from solve_empty_domain[OF e a this] show ?thesis .
  qed
  have 1: "outcome (solve (Suc n) cw doms) = outcome (solve_spec (Suc n) cw doms)"
  proof (cases "enforce_node_consistency cw doms")
    case (Inl e)
    then show ?thesis by (simp add: solve_def solve_spec_def)
  next
    case (Inr d1)
    show ?thesis
    proof (cases "ac3 cw d1 None")
      case None
      with Inr show ?thesis by (simp add: solve_def solve_spec_def)
    next
      case (Some r)
      show ?thesis
      proof (cases r)
        case (Inl e)
        with Inr Some show ?thesis by (simp add: solve_def solve_spec_def)
      next
        case r: (Inr p)
        obtain ok d2 where p: "p = (ok, d2)" by (cases p)
        show ?thesis
        proof (cases ok)
          case True
          with Inr Some r p show ?thesis by (simp add: solve_def solve_spec_def)
        next
          case False
          with Some r p have "ac3 cw d1 None = Some (Inr (False, d2))" by simp
          from main[OF Inr this] Inr Some r p False show ?thesis
            by (simp add: solve_spec_def outcome_def)
        qed
      qed
    qed
  qed
  have 2: "outcome (solve (Suc n) cw doms) = Some (Inr None) \<and> solve 0 cw doms = None"
    if "ac3_report cw doms = Some (Inr False)"
  proof -
    from that obtain d1 where e: "enforce_node_consistency cw doms = Inr d1"
      and m: "map_option (map_sum id fst) (ac3 cw d1 None) = Some (Inr False)"
      by (auto simp: ac3_report_def split: sum.splits)
    from m obtain r where r: "ac3 cw d1 None = Some r" "map_sum id fst r = Inr False" by auto
    then obtain d2 where "r = Inr (False, d2)" by (cases r) auto
    with r have "ac3 cw d1 None = Some (Inr (False, d2))" by simp
    from main[OF e this] show ?thesis by (simp add: outcome_def)
  qed
  from 1 2 show ?thesis by blast
qed

theorem solve_after_failed_ac3_witness:
  "ac3_report ex_cw (init_domains ex_cw) = Some (Inr False) \<and>
   outcome (solve (Suc 0) ex_cw (init_domains ex_cw)) = Some (Inr None) \<and>
   solve 0 ex_cw (init_domains ex_cw) = None"
proof -
  have r: "ac3_report ex_cw (init_domains ex_cw) = Some (Inr False)" by code_simp
  with solve_after_failed_ac3[of 0 ex_cw "init_domains ex_cw"] show ?thesis by blast
qed

subsection \<open>consistent raises no IndexError\<close>

lemma consistent_neighbors_returns:
  assumes "overlaps_in_bounds cw" "map_of a var = Some word_v" "length word_v = var_length var"
  shows "\<forall>n \<in> set ns. overlaps cw (var, n) \<noteq> None \<and>
            (\<forall>w. map_of a n = Some w \<longrightarrow> length w = var_length n) \<Longrightarrow>
         \<exists>b. consistent_neighbors cw a var ns = Inr b"
proof (induction ns)
  case Nil
  show ?case by auto
next
  case (Cons n ns)
  from Cons have ih: "\<exists>b. consistent_neighbors cw a var ns = Inr b" by simp
  show ?case
  proof (cases "map_of a n")
    case None
    with ih show ?thesis by auto
  next
    case (Some word_n)
    from Cons.prems obtain i j where o: "overlaps cw (var, n) = Some (i, j)" by auto
    with assms(1) have "i < var_length var" "j < var_length n"
      by (auto simp: overlaps_in_bounds_def)
    moreover from Cons.prems Some have "length word_n = var_length n" by simp
    ultimately have "char_at word_v i = Inr (word_v ! i)" "char_at word_n j = Inr (word_n ! j)"
      using assms(3) by (simp_all add: char_at_def)
    with Some o assms(2) ih show ?thesis by auto
  qed
qed

lemma consistent_loop_returns:
  assumes "overlaps_in_bounds cw"
    and "\<forall>v \<in> set (variables cw). \<forall>w. map_of a v = Some w \<longrightarrow> length w = var_length v"
  shows "\<exists>b. consistent_loop cw a vars seen = Inr b"
proof (induction vars arbitrary: seen)
  case Nil
  show ?case by auto
next
  case (Cons var vars)
  show ?case
  proof (cases "map_of a var")
    case None
    with Cons show ?thesis by auto
  next
    case (Some word)
    show ?thesis
    proof (cases "length word = var_length var")
      case False
      with Some show ?thesis by auto
    next
      case True
      have "\<forall>n \<in> set (neighbors cw var). overlaps cw (var, n) \<noteq> None \<and>
            (\<forall>w. map_of a n = Some w \<longrightarrow> length w = var_length n)"
        using assms(2) by (auto simp: neighbors_def)
      from consistent_neighbors_returns[OF assms(1) Some True this]
      obtain ok where "consistent_neighbors cw a var (neighbors cw var) = Inr ok" by blast
      with Some True Cons[of "insert word seen"] show ?thesis by auto
    qed
  qed
qed

lemma ex_cw2_in_bounds: "overlaps_in_bounds ex_cw2"
  by (auto simp: overlaps_in_bounds_def ex_cw2_def ex_x_def ex_y_def ex_z_def split: if_splits)

lemma ex_enforce2_all:
  "(case enforce_node_consistency ex_cw2 (init_domains ex_cw2) of
      Inr d \<Rightarrow> d ex_x = Some [''ab'', ''cd'', ''ef''] \<and> d ex_y = Some [''cde'', ''xyz'']
    | _ \<Rightarrow> False)"
  by code_simp

text \<open>
  C10. Let the overlap positions lie inside their variables, let the domains be those
  that \<open>enforce_node_consistency\<close> returns and let every word of the assignment come
  from the domain of its variable. Then every word of a domain has its variable's
  length and \<open>consistent\<close> returns a boolean, for the assignment and for the assignment
  extended, as \<open>backtrack\<close> extends it, by a value of a domain.
\<close>

theorem consistent_returns_bool:
  assumes "enforce_node_consistency cw doms0 = Inr doms"
    and "overlaps_in_bounds cw"
    and "\<forall>v w. map_of a v = Some w \<longrightarrow> w \<in> domain_of doms v"
  shows "(\<forall>v \<in> set (variables cw). \<forall>w \<in> domain_of doms v. length w = var_length v) \<and>
         (\<exists>b. consistent cw a = Inr b) \<and>
         (\<forall>var val. val \<in> domain_of doms var \<longrightarrow>
            (\<exists>b. consistent cw (AList.update var val a) = Inr b))"
proof -
  have nc: "\<forall>v \<in> set (variables cw). \<forall>w \<in> domain_of doms v. length w = var_length v"
    using enforce_node_consistency_loop_result[OF assms(1)[unfolded enforce_node_consistency_def]]
    by (fastforce simp: domain_of_def)
  have ret: "\<exists>b. consistent cw a' = Inr b"
    if "\<forall>v w. map_of a' v = Some w \<longrightarrow> w \<in> domain_of doms v" for a'
  proof -
    from that nc
    have "\<forall>v \<in> set (variables cw). \<forall>w. map_of a' v = Some w \<longrightarrow> length w = var_length v"
      by blast
    from consistent_loop_returns[OF assms(2) this] show ?thesis
      by (simp add: consistent_def)
  qed
  have upd: "\<exists>b. consistent cw (AList.update var val a) = Inr b"
    if "val \<in> domain_of doms var" for var val
    using that assms(3) by (intro ret) (auto simp: update_conv')
  from nc ret[OF assms(3)] upd show ?thesis by blast
qed

theorem consistent_returns_bool_witness:
  "overlaps_in_bounds ex_cw2 \<and>
   (\<exists>d. enforce_node_consistency ex_cw2 (init_domains ex_cw2) = Inr d \<and>
      ''ab'' \<in> domain_of d ex_x \<and> ''xyz'' \<in> domain_of d ex_y \<and>
      length ''xyz'' = var_length ex_y \<and>
      (\<exists>b. consistent ex_cw2 [(ex_x, ''ab'')] = Inr b) \<and>
      (\<exists>b. consistent ex_cw2 (AList.update ex_y ''xyz'' [(ex_x, ''ab'')]) = Inr b)) \<and>
   consistent ex_cw2 [(ex_x, ''ab''), (ex_y, ''xyz'')] = Inr False"
proof -
  from ex_enforce2_all obtain d where d: "enforce_node_consistency ex_cw2 (init_domains ex_cw2) = Inr d"
    and dx: "d ex_x = Some [''ab'', ''cd'', ''ef'']" and dy: "d ex_y = Some [''cde'', ''xyz'']"
    by (auto split: sum.splits)
  have mx: "''ab'' \<in> domain_of d ex_x" and my: "''xyz'' \<in> domain_of d ex_y"
    using dx dy by (simp_all add: domain_of_def)
  have drawn: "\<forall>v w. map_of [(ex_x, ''ab'')] v = Some w \<longrightarrow> w \<in> domain_of d v"
    using mx by (auto split: if_splits)
  have vy: "ex_y \<in> set (variables ex_cw2)" by (simp add: ex_cw2_def)
  note t = consistent_returns_bool[OF d ex_cw2_in_bounds drawn]
  from t vy my have 1: "length ''xyz'' = var_length ex_y" by blast
  from t have 2: "\<exists>b. consistent ex_cw2 [(ex_x, ''ab'')] = Inr b" by blast
  from t my have 3: "\<exists>b. consistent ex_cw2 (AList.update ex_y ''xyz'' [(ex_x, ''ab'')]) = Inr b"
    by blast
  have 4: "consistent ex_cw2 [(ex_x, ''ab''), (ex_y, ''xyz'')] = Inr False" by code_simp
  from d mx my 1 2 3 4 ex_cw2_in_bounds show ?thesis by blast
qed

subsection \<open>A second run of ac3\<close>

text \<open>
  The revision of an arc returns False exactly when every word of x's domain finds a
  word of y's domain that agrees with it, and the search for it raises nothing.
\<close>

lemma revise_loop_all_supported:
  "doms y = Some dy \<Longrightarrow> \<forall>w \<in> set ws. any_support w i j dy = Inr True \<Longrightarrow>
     revise_loop i j x y ws (r, doms) = Inr (r, doms)"
  by (induction ws) simp_all

lemma revise_loop_unrevised:
  "revise_loop i j x y ws (r, doms) = Inr (False, doms') \<Longrightarrow> ws \<noteq> [] \<Longrightarrow>
     \<exists>dy. doms y = Some dy \<and> (\<forall>w \<in> set ws. any_support w i j dy = Inr True)"
proof (induction ws)
  case Nil
  then show ?case by simp
next
  case (Cons w ws)
  from Cons.prems(1) obtain dy b where dy: "doms y = Some dy" and b: "any_support w i j dy = Inr b"
    by (auto split: option.splits sum.splits)
  have b': "b"
  proof (rule ccontr)
    assume "\<not> b"
    with Cons.prems(1) dy b obtain d1 where "revise_loop i j x y ws (True, d1) = Inr (False, doms')"
      by (auto split: option.splits if_splits)
    from revise_loop_frame[OF this] show False by simp
  qed
  with Cons.prems(1) dy b have rest: "revise_loop i j x y ws (r, doms) = Inr (False, doms')"
    by simp
  show ?case
  proof (cases "ws = []")
    case True
    with dy b b' show ?thesis by simp
  next
    case False
    from Cons.IH[OF rest False] dy b b' show ?thesis by simp
  qed
qed

lemma arc_stable_iff:
  "arc_stable cw doms (x, y) \<longleftrightarrow>
     (case overlaps cw (x, y) of
        None \<Rightarrow> True
      | Some (i, j) \<Rightarrow>
          (\<exists>dx. doms x = Some dx \<and>
             (dx = [] \<or> (\<exists>dy. doms y = Some dy \<and> (\<forall>w \<in> set dx. any_support w i j dy = Inr True)))))"
proof (cases "overlaps cw (x, y)")
  case None
  then show ?thesis by (simp add: arc_stable_def revise_def)
next
  case (Some ij)
  obtain i j where ij: "ij = (i, j)" by (cases ij)
  show ?thesis
  proof (cases "doms x")
    case None
    with Some ij show ?thesis by (simp add: arc_stable_def revise_def)
  next
    case dx: (Some dx)
    have "revise_loop i j x y dx (False, doms) = Inr (False, doms) \<longleftrightarrow>
       dx = [] \<or> (\<exists>dy. doms y = Some dy \<and> (\<forall>w \<in> set dx. any_support w i j dy = Inr True))"
      (is "?l \<longleftrightarrow> ?r")
    proof
      assume ?l
      then show ?r using revise_loop_unrevised[of i j x y dx False doms doms] by blast
    next
      assume ?r
      then show ?l
      proof
        assume "dx = []"
        then show ?l by simp
      next
        assume "\<exists>dy. doms y = Some dy \<and> (\<forall>w \<in> set dx. any_support w i j dy = Inr True)"
        then show ?l using revise_loop_all_supported by blast
      qed
    qed
    with Some ij dx show ?thesis by (simp add: arc_stable_def revise_def)
  qed
qed

lemma arc_stable_cong:
  "d' x = d x \<Longrightarrow> d' y = d y \<Longrightarrow> arc_stable cw d' (x, y) = arc_stable cw d (x, y)"
  unfolding arc_stable_iff by (simp split: option.splits)

lemma revise_loop_evaluates:
  "revise_loop i j x y ws (r, doms) = Inr (r', doms') \<Longrightarrow> x \<noteq> y \<Longrightarrow> doms y = Some dy \<Longrightarrow>
     \<forall>w \<in> set ws. \<exists>b. any_support w i j dy = Inr b"
proof (induction ws arbitrary: r doms)
  case Nil
  then show ?case by simp
next
  case (Cons w ws)
  from Cons.prems(1,3) obtain b where b: "any_support w i j dy = Inr b"
    by (auto split: sum.splits)
  show ?case
  proof (cases b)
    case True
    with Cons.prems b have "revise_loop i j x y ws (r, doms) = Inr (r', doms')" by simp
    from Cons.IH[OF this Cons.prems(2,3)] b show ?thesis by simp
  next
    case False
    define d1 where "d1 = doms(x \<mapsto> removeAll w (the (doms x)))"
    from False Cons.prems b have step: "revise_loop i j x y ws (True, d1) = Inr (r', doms')"
      by (auto simp: d1_def split: if_splits option.splits)
    have "d1 y = Some dy" using Cons.prems(2,3) by (simp add: d1_def)
    from Cons.IH[OF step Cons.prems(2) this] b show ?thesis by simp
  qed
qed

lemma revise_makes_stable:
  assumes r: "revise cw doms x y = Inr (revised, doms')" and "x \<noteq> y"
  shows "arc_stable cw doms' (x, y)"
proof (cases "overlaps cw (x, y)")
  case None
  then show ?thesis by (simp add: arc_stable_iff)
next
  case (Some ij)
  obtain i j where ij: "ij = (i, j)" by (cases ij)
  with Some have o: "overlaps cw (x, y) = Some (i, j)" by simp
  let ?S = "\<lambda>v. supported_in i j v (domain_of doms y)"
  from revise_result[OF r o assms(2)] obtain dx where dx: "doms x = Some dx"
    and d': "doms' = doms(x \<mapsto> filter ?S dx)" by blast
  from r o dx have l: "revise_loop i j x y dx (False, doms) = Inr (revised, doms')"
    by (simp add: revise_def)
  have x': "doms' x = Some (filter ?S dx)" and y': "doms' y = doms y"
    using d' assms(2) by simp_all
  show ?thesis
  proof (cases "filter ?S dx = []")
    case True
    with o x' show ?thesis by (simp add: arc_stable_iff)
  next
    case False
    then have "dx \<noteq> []" by auto
    with l obtain dy where dy: "doms y = Some dy"
      by (cases dx) (auto split: option.splits)
    have "any_support w i j dy = Inr True" if "w \<in> set (filter ?S dx)" for w
    proof -
      from that have w: "w \<in> set dx" "?S w" by simp_all
      from revise_loop_evaluates[OF l assms(2) dy] w(1)
      obtain b where b: "any_support w i j dy = Inr b" by blast
      from any_support_Inr[OF b] w(2) dy have "b" by (simp add: domain_of_def)
      with b show ?thesis by simp
    qed
    with o x' y' dy show ?thesis by (simp add: arc_stable_iff)
  qed
qed

lemma any_support_filter:
  "any_support w i j ws = Inr True \<Longrightarrow> \<forall>m \<in> set ws. agree_at i j w m \<longrightarrow> P m \<Longrightarrow>
     any_support w i j (filter P ws) = Inr True"
proof (induction ws)
  case Nil
  then show ?case by simp
next
  case (Cons m ws)
  from Cons.prems(1) have ci: "i < length w" and cj: "j < length m"
    by (auto simp: char_at_def split: if_splits)
  show ?case
  proof (cases "w ! i = m ! j")
    case True
    with ci cj have "agree_at i j w m" by (simp add: agree_at_def)
    with Cons.prems(2) have "P m" by simp
    with True ci cj show ?thesis by (simp add: char_at_def)
  next
    case False
    with Cons.prems(1) ci cj have "any_support w i j ws = Inr True" by (simp add: char_at_def)
    from Cons.IH[OF this] Cons.prems(2) have "any_support w i j (filter P ws) = Inr True" by simp
    with False ci cj show ?thesis by (simp add: char_at_def)
  qed
qed

lemma revise_keeps_reverse_stable:
  assumes sym: "overlaps_symmetric cw"
    and r: "revise cw doms x y = Inr (revised, doms')"
    and st: "arc_stable cw doms (y, x)"
  shows "arc_stable cw doms' (y, x)"
proof (cases "overlaps cw (x, y)")
  case None
  with r have "doms' = doms" by (simp add: revise_def)
  with st show ?thesis by simp
next
  case (Some ij)
  obtain i j where ij: "ij = (i, j)" by (cases ij)
  with Some have o: "overlaps cw (x, y) = Some (i, j)" by simp
  have ne: "x \<noteq> y" and o': "overlaps cw (y, x) = Some (j, i)"
    using sym o unfolding overlaps_symmetric_def by blast+
  let ?S = "\<lambda>v. supported_in i j v (domain_of doms y)"
  from revise_result[OF r o ne] obtain dx where dx: "doms x = Some dx"
    and d': "doms' = doms(x \<mapsto> filter ?S dx)" by blast
  have x': "doms' x = Some (filter ?S dx)" and y': "doms' y = doms y"
    using d' ne by simp_all
  from st[unfolded arc_stable_iff] o' dx obtain dy where dy: "doms y = Some dy"
    and sup: "dy = [] \<or> (\<forall>w \<in> set dy. any_support w j i dx = Inr True)"
    by auto
  have "any_support w j i (filter ?S dx) = Inr True" if w: "w \<in> set dy" for w
  proof -
    from sup w have a: "any_support w j i dx = Inr True" by auto
    have "\<forall>m \<in> set dx. agree_at j i w m \<longrightarrow> ?S m"
      using w dy by (auto simp: supported_in_def agree_at_def domain_of_def)
    from any_support_filter[OF a this] show ?thesis .
  qed
  with o' x' y' dy show ?thesis by (simp add: arc_stable_iff)
qed

lemma revise_keeps_forward_stable:
  assumes r: "revise cw doms x y = Inr (revised, doms')" and b: "b \<noteq> x"
    and st: "arc_stable cw doms (x, b)"
  shows "arc_stable cw doms' (x, b)"
proof -
  note f = revise_frame[OF r]
  from f b have b': "doms' b = doms b" by simp
  from f have sub: "domain_of doms' x \<subseteq> domain_of doms x" and k: "doms' x = None \<longleftrightarrow> doms x = None"
    by simp_all
  show ?thesis
  proof (cases "overlaps cw (x, b)")
    case None
    then show ?thesis by (simp add: arc_stable_iff)
  next
    case (Some ij)
    obtain i j where ij: "ij = (i, j)" by (cases ij)
    from st Some ij obtain dx where dx: "doms x = Some dx"
      and sup: "dx = [] \<or> (\<exists>dy. doms b = Some dy \<and> (\<forall>w \<in> set dx. any_support w i j dy = Inr True))"
      by (auto simp: arc_stable_iff)
    from k dx obtain dx' where dx': "doms' x = Some dx'" by auto
    from sub dx dx' have ss: "set dx' \<subseteq> set dx" by (simp add: domain_of_def)
    from sup ss have "dx' = [] \<or> (\<exists>dy. doms b = Some dy \<and> (\<forall>w \<in> set dx'. any_support w i j dy = Inr True))"
      by auto
    with Some ij dx' b' show ?thesis by (simp add: arc_stable_iff)
  qed
qed

lemma all_arcs_iff:
  "(a, b) \<in> set (all_arcs cw) \<longleftrightarrow>
     a \<in> set (variables cw) \<and> b \<in> set (variables cw) \<and> overlaps cw (a, b) \<noteq> None"
  by (auto simp: all_arcs_def neighbors_def)

lemma ac3_requeue_iff:
  "(a, b) \<in> set (ac3_requeue cw x y) \<longleftrightarrow>
     b = x \<and> a \<noteq> y \<and> a \<in> set (variables cw) \<and> overlaps cw (x, a) \<noteq> None"
  by (auto simp: ac3_requeue_def neighbors_def)

lemma overlaps_symmetricD:
  assumes "overlaps_symmetric cw" "overlaps cw (a, b) \<noteq> None"
  shows "a \<noteq> b" "overlaps cw (b, a) \<noteq> None"
proof -
  from assms(2) obtain ij where "overlaps cw (a, b) = Some ij" by auto
  then obtain i j where "overlaps cw (a, b) = Some (i, j)" by (cases ij) auto
  with assms(1) have "a \<noteq> b \<and> overlaps cw (b, a) = Some (j, i)"
    unfolding overlaps_symmetric_def by blast
  then show "a \<noteq> b" "overlaps cw (b, a) \<noteq> None" by simp_all
qed

lemma pending_only_unrevised:
  assumes "pending_only cw doms ((x, y) # rest)" "revise cw doms x y = Inr (False, doms')"
  shows "pending_only cw doms' rest"
proof -
  from revise_frame[OF assms(2)] have e: "doms' = doms" by simp
  with assms(2) have "arc_stable cw doms (x, y)" by (simp add: arc_stable_def)
  with assms(1) e show ?thesis by (auto simp: pending_only_def)
qed

lemma pending_only_revised:
  assumes sym: "overlaps_symmetric cw"
    and inv: "pending_only cw doms ((x, y) # rest)"
    and r: "revise cw doms x y = Inr (True, doms')"
  shows "pending_only cw doms' (rest @ ac3_requeue cw x y)"
  unfolding pending_only_def
proof (intro ballI impI)
  fix arc
  assume arc: "arc \<in> set (all_arcs cw)" and nq: "arc \<notin> set (rest @ ac3_requeue cw x y)"
  obtain a b where ab: "arc = (a, b)" by (cases arc)
  from r obtain i j where o: "overlaps cw (x, y) = Some (i, j)"
    by (cases "overlaps cw (x, y)") (auto simp: revise_def)
  have ne: "x \<noteq> y" and o': "overlaps cw (y, x) = Some (j, i)"
    using sym o unfolding overlaps_symmetric_def by blast+
  note f = revise_frame[OF r]
  show "arc_stable cw doms' arc"
  proof (cases "arc = (x, y)")
    case True
    with revise_makes_stable[OF r ne] show ?thesis by simp
  next
    case False
    with inv arc nq have old: "arc_stable cw doms (a, b)"
      by (auto simp: pending_only_def ab)
    from arc ab have oab: "overlaps cw (a, b) \<noteq> None" and av: "a \<in> set (variables cw)"
      by (simp_all add: all_arcs_iff)
    have nab: "a \<noteq> b"
      using sym oab by (rule overlaps_symmetricD)
    show ?thesis
    proof (cases "a = x")
      case True
      with nab have "b \<noteq> x" by simp
      from revise_keeps_forward_stable[OF r this] old True ab show ?thesis by simp
    next
      case ax: False
      show ?thesis
      proof (cases "b = x")
        case True
        have "overlaps cw (x, a) \<noteq> None"
          using overlaps_symmetricD(2)[OF sym oab] True by simp
        with nq ab True av have "a = y" by (auto simp: ac3_requeue_iff)
        with revise_keeps_reverse_stable[OF sym r] old True ab show ?thesis by simp
      next
        case False
        with ax f have "doms' a = doms a" "doms' b = doms b" by simp_all
        from arc_stable_cong[OF this, of cw] old ab show ?thesis by simp
      qed
    qed
  qed
qed

lemma ac3_loop_stabilises:
  assumes sym: "overlaps_symmetric cw"
  shows "pending_only cw doms queue \<Longrightarrow> ac3_loop cw doms queue = Some (Inr (True, doms')) \<Longrightarrow>
     \<forall>arc \<in> set (all_arcs cw). arc_stable cw doms' arc"
proof (induction doms queue rule: ac3_loop_induct[where cw = cw])
  case (1 doms queue)
  show ?case
  proof (cases queue)
    case Nil
    with 1(3,4) show ?thesis by (simp add: ac3_loop_Nil pending_only_def)
  next
    case (Cons a rest)
    obtain x y where a: "a = (x, y)" by (cases a)
    from 1(3) Cons a have inv: "pending_only cw doms ((x, y) # rest)" by simp
    show ?thesis
    proof (cases "revise cw doms x y")
      case (Inl e)
      with Cons a 1(4) show ?thesis by (simp add: ac3_loop_error)
    next
      case (Inr rd)
      obtain revised d1 where rd: "rd = (revised, d1)" by (cases rd)
      show ?thesis
      proof (cases revised)
        case False
        with Inr rd have r: "revise cw doms x y = Inr (False, d1)" by simp
        from 1(4) Cons a ac3_loop_unrevised[OF r]
        have run: "ac3_loop cw d1 rest = Some (Inr (True, doms'))" by simp
        from 1(1)[OF _ r pending_only_unrevised[OF inv r] run] Cons a show ?thesis by simp
      next
        case True
        with Inr rd have r: "revise cw doms x y = Inr (True, d1)" by simp
        show ?thesis
        proof (cases "d1 x")
          case None
          with r Cons a 1(4) show ?thesis by (subst (asm) ac3_loop.simps) simp
        next
          case (Some dx)
          show ?thesis
          proof (cases "dx = []")
            case True
            with Some r Cons a 1(4) show ?thesis by (simp add: ac3_loop_emptied)
          next
            case False
            from 1(4) Cons a ac3_loop_revised[OF r Some False]
            have run: "ac3_loop cw d1 (rest @ ac3_requeue cw x y) = Some (Inr (True, doms'))"
              by simp
            from 1(2)[OF _ r Some False pending_only_revised[OF sym inv r] run] Cons a
            show ?thesis by simp
          qed
        qed
      qed
    qed
  qed
qed

lemma ac3_loop_stable:
  "\<forall>arc \<in> set queue. arc_stable cw doms arc \<Longrightarrow> ac3_loop cw doms queue = Some (Inr (True, doms))"
proof (induction queue)
  case Nil
  show ?case by (rule ac3_loop_Nil)
next
  case (Cons a queue)
  obtain x y where a: "a = (x, y)" by (cases a)
  with Cons.prems have "revise cw doms x y = Inr (False, doms)" by (simp add: arc_stable_def)
  from ac3_loop_unrevised[OF this, of queue] Cons a show ?case by simp
qed

lemma ex_cw2_symmetric: "overlaps_symmetric ex_cw2"
  by (auto simp: overlaps_symmetric_def ex_cw2_def ex_x_def ex_y_def ex_z_def split: if_splits)

lemma ex_ac3_2_first:
  "(case ac3 ex_cw2 ex_doms2 None of
      Some (Inr (ok, d)) \<Rightarrow> ok \<and> d ex_x = Some [''cd''] \<and> d ex_y = Some [''cde'']
    | _ \<Rightarrow> False)"
  by code_simp

lemma ex_all_arcs: "all_arcs ex_cw = [(ex_x, ex_y), (ex_y, ex_x)]"
  by (simp add: all_arcs_def neighbors_def ex_cw_def ex_distinct)

lemma ex_revise1_xy_again:
  "revise ex_cw (ex_doms1(ex_x \<mapsto> [])) ex_x ex_y = Inr (False, ex_doms1(ex_x \<mapsto> []))"
  by (simp add: revise_def ex_cw_def)

lemma ex_revise1_yx:
  "revise ex_cw (ex_doms1(ex_x \<mapsto> [])) ex_y ex_x = Inr (True, ex_doms1(ex_x \<mapsto> [], ex_y \<mapsto> []))"
  by (simp add: revise_def ex_cw_def ex_doms1_def ex_distinct)

text \<open>
  C6 as the spec states it fails after a run that returned False. In \<open>ex_cw\<close> the
  first run empties the domain of the slot across and stops; the second run then
  empties the domain of the slot down.
\<close>

theorem ac3_second_run_counterexample:
  "ac3 ex_cw ex_doms1 None = Some (Inr (False, ex_doms1(ex_x \<mapsto> []))) \<and>
   ac3 ex_cw (ex_doms1(ex_x \<mapsto> [])) None =
     Some (Inr (False, ex_doms1(ex_x \<mapsto> [], ex_y \<mapsto> []))) \<and>
   (ex_doms1(ex_x \<mapsto> [])) ex_y = Some [''cde''] \<and>
   (ex_doms1(ex_x \<mapsto> [], ex_y \<mapsto> [])) ex_y = Some []"
proof -
  have 1: "ac3 ex_cw ex_doms1 None = Some (Inr (False, ex_doms1(ex_x \<mapsto> [])))"
    using ac3_loop_emptied[OF ex_revise1_xy] by (simp add: ac3_def ex_all_arcs)
  have "ac3_loop ex_cw (ex_doms1(ex_x \<mapsto> [])) [(ex_y, ex_x)] =
     Some (Inr (False, ex_doms1(ex_x \<mapsto> [], ex_y \<mapsto> [])))"
    using ac3_loop_emptied[OF ex_revise1_yx] by simp
  then have 2: "ac3 ex_cw (ex_doms1(ex_x \<mapsto> [])) None =
     Some (Inr (False, ex_doms1(ex_x \<mapsto> [], ex_y \<mapsto> [])))"
    using ac3_loop_unrevised[OF ex_revise1_xy_again, of "[(ex_y, ex_x)]"]
    by (simp add: ac3_def ex_all_arcs)
  have 3: "(ex_doms1(ex_x \<mapsto> [])) ex_y = Some [''cde'']"
    by (simp add: ex_doms1_def ex_distinct)
  from 1 2 3 show ?thesis by simp
qed

text \<open>
  C6, amended. For a symmetric overlap map: when \<open>ac3\<close>, called with the full arc set,
  returns True, a second call returns True and leaves the domains as the first call
  left them.
\<close>

theorem ac3_idempotent_after_success:
  assumes "overlaps_symmetric cw" "ac3 cw doms None = Some (Inr (True, doms'))"
  shows "ac3 cw doms' None = Some (Inr (True, doms'))"
proof -
  have "pending_only cw doms (all_arcs cw)" by (simp add: pending_only_def)
  from ac3_loop_stabilises[OF assms(1) this] assms(2)
  have "\<forall>arc \<in> set (all_arcs cw). arc_stable cw doms' arc" by (simp add: ac3_def)
  then show ?thesis by (simp add: ac3_def ac3_loop_stable)
qed

theorem ac3_idempotent_after_success_witness:
  "overlaps_symmetric ex_cw2 \<and>
   (\<exists>d. ac3 ex_cw2 ex_doms2 None = Some (Inr (True, d)) \<and>
        d ex_x = Some [''cd''] \<and> d ex_y = Some [''cde''] \<and>
        ac3 ex_cw2 d None = Some (Inr (True, d)))"
proof -
  from ex_ac3_2_first obtain d where d: "ac3 ex_cw2 ex_doms2 None = Some (Inr (True, d))"
    and v: "d ex_x = Some [''cd'']" "d ex_y = Some [''cde'']"
    by (rule run_resultE) auto
  from ac3_idempotent_after_success[OF ex_cw2_symmetric d] d v ex_cw2_symmetric
  show ?thesis by blast
qed

subsection \<open>What ac3 returns\<close>

text \<open>
  With the overlap positions inside their variables and domains as node consistency
  leaves them, neither \<open>revise\<close> nor the worklist loop raises: the loop returns a
  boolean. \<open>enforce_node_consistency\<close> leaves such domains when it starts from the
  domains of \<open>__init__\<close>.
\<close>

lemma any_support_returns:
  "i < length w \<Longrightarrow> \<forall>m \<in> set ws. j < length m \<Longrightarrow> \<exists>b. any_support w i j ws = Inr b"
  by (induction ws) (auto simp: char_at_def)

lemma revise_loop_returns:
  assumes "i < var_length x" "j < var_length y"
  shows "words_fit doms \<Longrightarrow> doms x = Some dx \<Longrightarrow> doms y \<noteq> None \<Longrightarrow>
     set ws \<subseteq> set dx \<Longrightarrow> distinct ws \<Longrightarrow>
     \<exists>r' doms'. revise_loop i j x y ws (r, doms) = Inr (r', doms') \<and> words_fit doms'"
proof (induction ws arbitrary: r doms dx)
  case Nil
  then show ?case by simp
next
  case (Cons w ws)
  from Cons.prems(3) obtain dy where dy: "doms y = Some dy" by auto
  from Cons.prems(1,2,4) assms(1) have wi: "i < length w"
    by (auto simp: words_fit_def)
  from Cons.prems(1) dy assms(2) have "\<forall>m \<in> set dy. j < length m"
    by (auto simp: words_fit_def)
  from any_support_returns[OF wi this] obtain b where b: "any_support w i j dy = Inr b" by blast
  show ?case
  proof (cases b)
    case True
    from Cons.prems have "set ws \<subseteq> set dx" "distinct ws" by simp_all
    from Cons.IH[OF Cons.prems(1,2,3) this, of r] dy b True show ?thesis by simp
  next
    case False
    define d1 where "d1 = doms(x \<mapsto> removeAll w dx)"
    have mem: "w \<in> set dx" using Cons.prems(4) by simp
    have f1: "words_fit d1"
      using Cons.prems(1,2) by (auto simp: words_fit_def d1_def distinct_removeAll)
    have x1: "d1 x = Some (removeAll w dx)" by (simp add: d1_def)
    have y1: "d1 y \<noteq> None" using Cons.prems(3) by (simp add: d1_def)
    have s1: "set ws \<subseteq> set (removeAll w dx)" and ds: "distinct ws"
      using Cons.prems(4,5) by auto
    from Cons.IH[OF f1 x1 y1 s1 ds, of True]
    obtain r' doms' where "revise_loop i j x y ws (True, d1) = Inr (r', doms')" "words_fit doms'"
      by blast
    with dy b False Cons.prems(2) mem show ?thesis by (simp add: d1_def)
  qed
qed

lemma revise_returns:
  assumes "overlaps_in_bounds cw" "words_fit doms" "doms x \<noteq> None" "doms y \<noteq> None"
  shows "\<exists>revised doms'. revise cw doms x y = Inr (revised, doms') \<and> words_fit doms'"
proof (cases "overlaps cw (x, y)")
  case None
  with assms(2) show ?thesis by (auto simp: revise_def)
next
  case (Some ij)
  obtain i j where ij: "ij = (i, j)" by (cases ij)
  with Some assms(1) have b: "i < var_length x" "j < var_length y"
    by (auto simp: overlaps_in_bounds_def)
  from assms(3) obtain dx where dx: "doms x = Some dx" by auto
  with assms(2) have "distinct dx" by (auto simp: words_fit_def)
  from revise_loop_returns[OF b assms(2) dx assms(4) subset_refl this, of False]
  show ?thesis using Some ij dx by (simp add: revise_def)
qed

lemma ac3_loop_returns_bool:
  assumes ib: "overlaps_in_bounds cw"
  shows "words_fit doms \<Longrightarrow> \<forall>v \<in> set (variables cw). doms v \<noteq> None \<Longrightarrow>
     \<forall>arc \<in> set queue. doms (fst arc) \<noteq> None \<and> doms (snd arc) \<noteq> None \<Longrightarrow>
     \<exists>ok doms'. ac3_loop cw doms queue = Some (Inr (ok, doms'))"
proof (induction doms queue rule: ac3_loop_induct[where cw = cw])
  case (1 doms queue)
  show ?case
  proof (cases queue)
    case Nil
    then show ?thesis by (auto simp: ac3_loop_Nil)
  next
    case (Cons a rest)
    obtain x y where a: "a = (x, y)" by (cases a)
    from 1(5) Cons a have kx: "doms x \<noteq> None" and ky: "doms y \<noteq> None" by simp_all
    from revise_returns[OF ib 1(3) kx ky]
    obtain revised d1 where r0: "revise cw doms x y = Inr (revised, d1)" and f1: "words_fit d1"
      by blast
    note keys = revise_keys[OF r0]
    from keys 1(4) have k1: "\<forall>v \<in> set (variables cw). d1 v \<noteq> None" by simp
    from keys 1(5) Cons have q1: "\<forall>arc \<in> set rest. d1 (fst arc) \<noteq> None \<and> d1 (snd arc) \<noteq> None"
      by simp
    show ?thesis
    proof (cases revised)
      case False
      with r0 have r: "revise cw doms x y = Inr (False, d1)" by simp
      from 1(1)[OF _ r f1 k1 q1] Cons a ac3_loop_unrevised[OF r] show ?thesis by simp
    next
      case True
      with r0 have r: "revise cw doms x y = Inr (True, d1)" by simp
      from keys kx have "d1 x \<noteq> None" by simp
      then obtain dx where dx: "d1 x = Some dx" by auto
      show ?thesis
      proof (cases "dx = []")
        case True
        with dx r Cons a show ?thesis by (auto simp: ac3_loop_emptied)
      next
        case False
        have "\<forall>arc \<in> set (ac3_requeue cw x y). d1 (fst arc) \<noteq> None \<and> d1 (snd arc) \<noteq> None"
          using k1 dx by (auto simp: ac3_requeue_def neighbors_def)
        with q1 have q2: "\<forall>arc \<in> set (rest @ ac3_requeue cw x y).
            d1 (fst arc) \<noteq> None \<and> d1 (snd arc) \<noteq> None" by auto
        from 1(2)[OF _ r dx False f1 k1 q2] Cons a ac3_loop_revised[OF r dx False]
        show ?thesis by simp
      qed
    qed
  qed
qed

lemma enforce_node_consistency_fit:
  assumes "distinct (words cw)"
  shows "\<exists>doms. enforce_node_consistency cw (init_domains cw) = Inr doms \<and> domains_fit cw doms"
proof -
  have "\<exists>doms'. enforce_node_consistency_loop vars doms = Inr doms'"
    if "\<forall>v \<in> set vars. doms v \<noteq> None" for vars and doms :: domains
    using that by (induction vars arbitrary: doms) (auto split: option.splits)
  then obtain d where d: "enforce_node_consistency cw (init_domains cw) = Inr d"
    unfolding enforce_node_consistency_def by (force simp: init_domains_def)
  note r = enforce_node_consistency_loop_result[OF d[unfolded enforce_node_consistency_def]]
  have 1: "\<forall>v \<in> set (variables cw). d v \<noteq> None" using r by auto
  have 2: "distinct ws \<and> (\<forall>w \<in> set ws. length w = var_length v)" if "d v = Some ws" for v ws
  proof (cases "v \<in> set (variables cw)")
    case True
    with r obtain ws0 where "init_domains cw v = Some ws0"
      "d v = Some (filter (\<lambda>word. length word = var_length v) ws0)" by blast
    with that True assms show ?thesis by (auto simp: init_domains_def)
  next
    case False
    with r have "d v = init_domains cw v" by simp
    with False that show ?thesis by (simp add: init_domains_def)
  qed
  from d 1 2 show ?thesis by (auto simp: domains_fit_def words_fit_def)
qed

text \<open>
  A run that returns False has emptied a domain that held a word; a run that returns
  True has emptied none; and a run over the full arc set that returns True leaves
  every arc of the puzzle arc consistent.
\<close>

lemma ac3_loop_False_became_empty:
  "ac3_loop cw doms queue = Some (Inr (False, doms')) \<Longrightarrow>
     \<exists>v. doms' v = Some [] \<and> domain_of doms v \<noteq> {}"
proof (induction doms queue rule: ac3_loop_induct[where cw = cw])
  case (1 doms queue)
  show ?case
  proof (cases queue)
    case Nil
    with 1(3) show ?thesis by (simp add: ac3_loop_Nil)
  next
    case (Cons a rest)
    obtain x y where a: "a = (x, y)" by (cases a)
    show ?thesis
    proof (cases "revise cw doms x y")
      case (Inl e)
      with Cons a 1(3) show ?thesis by (simp add: ac3_loop_error)
    next
      case (Inr rd)
      obtain revised d1 where rd: "rd = (revised, d1)" by (cases rd)
      with Inr have r0: "revise cw doms x y = Inr (revised, d1)" by simp
      have sh: "domain_of d1 v \<noteq> {} \<Longrightarrow> domain_of doms v \<noteq> {}" for v
        using revise_shrinks[OF r0, of v] by auto
      show ?thesis
      proof (cases revised)
        case False
        with r0 have r: "revise cw doms x y = Inr (False, d1)" by simp
        from 1(3) Cons a ac3_loop_unrevised[OF r]
        have "ac3_loop cw d1 rest = Some (Inr (False, doms'))" by simp
        from 1(1)[OF _ r this] Cons a sh show ?thesis by blast
      next
        case True
        with r0 have r: "revise cw doms x y = Inr (True, d1)" by simp
        show ?thesis
        proof (cases "d1 x")
          case None
          with r Cons a 1(3) show ?thesis by (subst (asm) ac3_loop.simps) simp
        next
          case (Some dx)
          show ?thesis
          proof (cases "dx = []")
            case True
            from revise_frame[OF r] have "domain_size d1 x < domain_size doms x" by simp
            then have "domain_of doms x \<noteq> {}"
              by (auto simp: domain_size_def domain_of_def split: option.splits)
            moreover from True Some r Cons a 1(3) have "doms' = d1"
              by (simp add: ac3_loop_emptied)
            ultimately show ?thesis using Some True by blast
          next
            case False
            from 1(3) Cons a ac3_loop_revised[OF r Some False]
            have "ac3_loop cw d1 (rest @ ac3_requeue cw x y) = Some (Inr (False, doms'))" by simp
            from 1(2)[OF _ r Some False this] Cons a sh show ?thesis by blast
          qed
        qed
      qed
    qed
  qed
qed

lemma ac3_loop_True_none_emptied:
  "ac3_loop cw doms queue = Some (Inr (True, doms')) \<Longrightarrow> doms' v = Some [] \<Longrightarrow>
     doms v = Some []"
proof (induction doms queue rule: ac3_loop_induct[where cw = cw])
  case (1 doms queue)
  show ?case
  proof (cases queue)
    case Nil
    with 1(3,4) show ?thesis by (simp add: ac3_loop_Nil)
  next
    case (Cons a rest)
    obtain x y where a: "a = (x, y)" by (cases a)
    show ?thesis
    proof (cases "revise cw doms x y")
      case (Inl e)
      with Cons a 1(3) show ?thesis by (simp add: ac3_loop_error)
    next
      case (Inr rd)
      obtain revised d1 where rd: "rd = (revised, d1)" by (cases rd)
      show ?thesis
      proof (cases revised)
        case False
        with Inr rd have r: "revise cw doms x y = Inr (False, d1)" by simp
        from revise_frame[OF r] have e: "d1 = doms" by simp
        from 1(3) Cons a ac3_loop_unrevised[OF r]
        have "ac3_loop cw d1 rest = Some (Inr (True, doms'))" by simp
        from 1(1)[OF _ r this 1(4)] Cons a e show ?thesis by simp
      next
        case True
        with Inr rd have r: "revise cw doms x y = Inr (True, d1)" by simp
        show ?thesis
        proof (cases "d1 x")
          case None
          with r Cons a 1(3) show ?thesis by (subst (asm) ac3_loop.simps) simp
        next
          case (Some dx)
          show ?thesis
          proof (cases "dx = []")
            case True
            with Some r Cons a 1(3) show ?thesis by (simp add: ac3_loop_emptied)
          next
            case False
            from 1(3) Cons a ac3_loop_revised[OF r Some False]
            have "ac3_loop cw d1 (rest @ ac3_requeue cw x y) = Some (Inr (True, doms'))" by simp
            from 1(2)[OF _ r Some False this 1(4)] Cons a have v1: "d1 v = Some []" by simp
            with Some False have "v \<noteq> x" by auto
            with revise_frame[OF r] v1 show ?thesis by simp
          qed
        qed
      qed
    qed
  qed
qed

lemma arc_stable_supported:
  assumes "arc_stable cw doms (x, y)" "overlaps cw (x, y) = Some (i, j)" "w \<in> domain_of doms x"
  shows "supported_in i j w (domain_of doms y)"
proof -
  from assms(1)[unfolded arc_stable_iff] assms(2) obtain dx where dx: "doms x = Some dx"
    and s: "dx = [] \<or> (\<exists>dy. doms y = Some dy \<and> (\<forall>w \<in> set dx. any_support w i j dy = Inr True))"
    by auto
  from assms(3) dx have w: "w \<in> set dx" by (simp add: domain_of_def)
  with s obtain dy where dy: "doms y = Some dy" and a: "any_support w i j dy = Inr True" by auto
  from any_support_Inr[OF a] dy show ?thesis by (simp add: domain_of_def)
qed

lemma ac3_arc_consistent:
  assumes "overlaps_symmetric cw" "ac3 cw doms None = Some (Inr (True, doms'))"
    "x \<in> set (variables cw)" "y \<in> set (variables cw)" "overlaps cw (x, y) = Some (i, j)"
    "w \<in> domain_of doms' x"
  shows "supported_in i j w (domain_of doms' y)"
proof -
  have "pending_only cw doms (all_arcs cw)" by (simp add: pending_only_def)
  from ac3_loop_stabilises[OF assms(1) this] assms(2)
  have "\<forall>arc \<in> set (all_arcs cw). arc_stable cw doms' arc" by (simp add: ac3_def)
  moreover from assms(3,4,5) have "(x, y) \<in> set (all_arcs cw)" by (simp add: all_arcs_iff)
  ultimately have "arc_stable cw doms' (x, y)" by blast
  from arc_stable_supported[OF this assms(5,6)] show ?thesis .
qed

lemma ac3_Some_eq: "ac3 cw doms (Some queue) = ac3_loop cw doms queue"
  by (simp add: ac3_def)

lemma ex_doms2_fit: "domains_fit ex_cw2 ex_doms2"
  by (auto simp: domains_fit_def words_fit_def ex_cw2_def ex_doms2_def ex_x_def ex_y_def ex_z_def
      split: if_splits)

text \<open>
  C3. For every crossword, every dictionary of domains and every worklist, \<open>ac3\<close>
  returns. With the overlap positions inside their variables, domains as node
  consistency leaves them and entries for the variables of the given arcs, what it
  returns is a boolean and no exception. When it returns False, a domain that held a
  word is empty; when it returns True, every domain that held a word still holds
  one, and after a run over the full arc set (symmetric overlap map) every word of a
  variable is supported in the domain of each variable that overlaps it. The run
  follows the worklist first in, first out: with no arcs given it is the run over
  the full arc set; on the empty worklist it returns True; it takes the arc at the
  front, and an exception of the revision is the exception of the run, a revision
  that removes nothing leaves the rest of the worklist, a revision that empties x's
  domain ends the run with False at once, and a revision that removes words and
  leaves some puts the arcs from the other neighbours of x behind the rest.
\<close>

theorem ac3_terminates:
  "(\<exists>r. ac3 cw doms arcs = Some r) \<and>
   (overlaps_in_bounds cw \<and> domains_fit cw doms \<and>
      (\<forall>given. arcs = Some given \<longrightarrow>
         (\<forall>arc \<in> set given. doms (fst arc) \<noteq> None \<and> doms (snd arc) \<noteq> None)) \<longrightarrow>
      (\<exists>ok d. ac3 cw doms arcs = Some (Inr (ok, d)))) \<and>
   (\<forall>d. ac3 cw doms arcs = Some (Inr (False, d)) \<longrightarrow>
      (\<exists>v. d v = Some [] \<and> domain_of doms v \<noteq> {})) \<and>
   (\<forall>d v. ac3 cw doms arcs = Some (Inr (True, d)) \<and> domain_of doms v \<noteq> {} \<longrightarrow>
      domain_of d v \<noteq> {}) \<and>
   (\<forall>d. overlaps_symmetric cw \<and> ac3 cw doms None = Some (Inr (True, d)) \<longrightarrow>
      (\<forall>u \<in> set (variables cw). \<forall>v \<in> set (variables cw). \<forall>i j.
         overlaps cw (u, v) = Some (i, j) \<longrightarrow>
         (\<forall>w \<in> domain_of d u. supported_in i j w (domain_of d v)))) \<and>
   ac3 cw doms None = ac3 cw doms (Some (all_arcs cw)) \<and>
   ac3 cw doms (Some []) = Some (Inr (True, doms)) \<and>
   (revise cw doms x y = Inl e \<longrightarrow> ac3 cw doms (Some ((x, y) # rest)) = Some (Inl e)) \<and>
   (revise cw doms x y = Inr (False, doms') \<longrightarrow>
      ac3 cw doms (Some ((x, y) # rest)) = ac3 cw doms' (Some rest)) \<and>
   (revise cw doms x y = Inr (True, doms') \<and> doms' x = Some [] \<longrightarrow>
      ac3 cw doms (Some ((x, y) # rest)) = Some (Inr (False, doms'))) \<and>
   (revise cw doms x y = Inr (True, doms') \<and> doms' x = Some dx \<and> dx \<noteq> [] \<longrightarrow>
      ac3 cw doms (Some ((x, y) # rest)) =
        ac3 cw doms' (Some (rest @ map (\<lambda>z. (z, x)) (filter (\<lambda>z. z \<noteq> y) (neighbors cw x)))))"
proof (intro conjI impI allI ballI)
  let ?q = "case arcs of None \<Rightarrow> all_arcs cw | Some given \<Rightarrow> given"
  show "\<exists>r. ac3 cw doms arcs = Some r"
    unfolding ac3_def by (rule ac3_loop_returns)
  show "\<exists>ok d. ac3 cw doms arcs = Some (Inr (ok, d))"
    if h: "overlaps_in_bounds cw \<and> domains_fit cw doms \<and>
      (\<forall>given. arcs = Some given \<longrightarrow>
         (\<forall>arc \<in> set given. doms (fst arc) \<noteq> None \<and> doms (snd arc) \<noteq> None))"
  proof -
    from h have k: "\<forall>v \<in> set (variables cw). doms v \<noteq> None" and f: "words_fit doms"
      by (simp_all add: domains_fit_def)
    have "\<forall>arc \<in> set ?q. doms (fst arc) \<noteq> None \<and> doms (snd arc) \<noteq> None"
    proof (cases arcs)
      case None
      with k show ?thesis by (auto simp: all_arcs_iff)
    next
      case (Some given)
      with h show ?thesis by simp
    qed
    from ac3_loop_returns_bool[OF _ f k this] h show ?thesis by (simp add: ac3_def)
  qed
  show "\<exists>v. d v = Some [] \<and> domain_of doms v \<noteq> {}"
    if "ac3 cw doms arcs = Some (Inr (False, d))" for d
    using that unfolding ac3_def by (rule ac3_loop_False_became_empty)
  show "domain_of d v \<noteq> {}"
    if h: "ac3 cw doms arcs = Some (Inr (True, d)) \<and> domain_of doms v \<noteq> {}" for d v
  proof -
    from h have run: "ac3_loop cw doms ?q = Some (Inr (True, d))" by (simp add: ac3_def)
    from h obtain ws where ws: "doms v = Some ws" "ws \<noteq> []"
      by (auto simp: domain_of_def split: option.splits)
    from ac3_loop_keys[OF run] ws(1) have "d v \<noteq> None" by simp
    then obtain ws' where ws': "d v = Some ws'" by auto
    have "ws' \<noteq> []"
    proof
      assume "ws' = []"
      with ws' ac3_loop_True_none_emptied[OF run, of v] ws show False by simp
    qed
    with ws' show ?thesis by (simp add: domain_of_def)
  qed
  show "supported_in i j w (domain_of d v)"
    if "overlaps_symmetric cw \<and> ac3 cw doms None = Some (Inr (True, d))"
      "u \<in> set (variables cw)" "v \<in> set (variables cw)" "overlaps cw (u, v) = Some (i, j)"
      "w \<in> domain_of d u" for d u v i j w
    using that ac3_arc_consistent[of cw doms d u v i j w] by blast
  show "ac3 cw doms None = ac3 cw doms (Some (all_arcs cw))"
    by (simp add: ac3_def)
  show "ac3 cw doms (Some []) = Some (Inr (True, doms))"
    by (simp add: ac3_def ac3_loop_Nil)
  show "ac3 cw doms (Some ((x, y) # rest)) = Some (Inl e)" if "revise cw doms x y = Inl e"
    using that by (simp add: ac3_Some_eq ac3_loop_error)
  show "ac3 cw doms (Some ((x, y) # rest)) = ac3 cw doms' (Some rest)"
    if "revise cw doms x y = Inr (False, doms')"
    using that by (simp add: ac3_Some_eq ac3_loop_unrevised)
  show "ac3 cw doms (Some ((x, y) # rest)) = Some (Inr (False, doms'))"
    if "revise cw doms x y = Inr (True, doms') \<and> doms' x = Some []"
    using that by (simp add: ac3_Some_eq ac3_loop_emptied)
  show "ac3 cw doms (Some ((x, y) # rest)) =
        ac3 cw doms' (Some (rest @ map (\<lambda>z. (z, x)) (filter (\<lambda>z. z \<noteq> y) (neighbors cw x))))"
    if "revise cw doms x y = Inr (True, doms') \<and> doms' x = Some dx \<and> dx \<noteq> []"
    using that ac3_loop_revised[of cw doms x y doms' dx rest]
    by (simp add: ac3_Some_eq ac3_requeue_def)
qed

theorem ac3_terminates_witness:
  "overlaps_in_bounds ex_cw2 \<and> domains_fit ex_cw2 ex_doms2 \<and> overlaps_symmetric ex_cw2 \<and>
   (\<exists>d. ac3 ex_cw2 ex_doms2 None = Some (Inr (True, d)) \<and>
        d ex_x = Some [''cd''] \<and> d ex_y = Some [''cde''] \<and>
        domain_of ex_doms2 ex_x \<noteq> {} \<and> domain_of d ex_x \<noteq> {} \<and>
        supported_in 0 0 ''cd'' (domain_of d ex_y)) \<and>
   ac3 ex_cw ex_doms1 None = Some (Inr (False, ex_doms1(ex_x \<mapsto> []))) \<and>
   (\<exists>v. (ex_doms1(ex_x \<mapsto> [])) v = Some [] \<and> domain_of ex_doms1 v \<noteq> {}) \<and>
   ac3 ex_cw2 ex_doms2 (Some []) = Some (Inr (True, ex_doms2)) \<and>
   revise ex_cw2 ex_doms2 ex_x ex_z = Inr (False, ex_doms2) \<and>
   ac3 ex_cw2 ex_doms2 (Some [(ex_x, ex_z)]) = Some (Inr (True, ex_doms2)) \<and>
   revise ex_cw ex_doms1 ex_x ex_y = Inr (True, ex_doms1(ex_x \<mapsto> [])) \<and>
   ac3 ex_cw ex_doms1 (Some [(ex_x, ex_y), (ex_y, ex_x)]) =
     Some (Inr (False, ex_doms1(ex_x \<mapsto> []))) \<and>
   revise ex_cw2 ex_doms2 ex_y ex_z = Inr (True, ex_doms2(ex_y \<mapsto> [''cde''])) \<and>
   ac3 ex_cw2 ex_doms2 (Some [(ex_y, ex_z)]) =
     ac3 ex_cw2 (ex_doms2(ex_y \<mapsto> [''cde''])) (Some [(ex_x, ex_y)])"
proof -
  note t2 = ac3_terminates[of ex_cw2 ex_doms2 None ex_x ex_z _ "[]" ex_doms2]
  note t2_bool = t2[THEN conjunct2, THEN conjunct1]
  note t2_kept = t2[THEN conjunct2, THEN conjunct2, THEN conjunct2, THEN conjunct1]
  note t2_arc = t2[THEN conjunct2, THEN conjunct2, THEN conjunct2, THEN conjunct2, THEN conjunct1]
  note t2_nil = t2[THEN conjunct2, THEN conjunct2, THEN conjunct2, THEN conjunct2,
      THEN conjunct2, THEN conjunct2, THEN conjunct1]
  note t2_unrev = t2[THEN conjunct2, THEN conjunct2, THEN conjunct2, THEN conjunct2,
      THEN conjunct2, THEN conjunct2, THEN conjunct2, THEN conjunct2, THEN conjunct1]
  from t2_bool ex_cw2_in_bounds ex_doms2_fit
  obtain ok d where run0: "ac3 ex_cw2 ex_doms2 None = Some (Inr (ok, d))" by auto
  from ex_ac3_2_first run0 have ok: "ok" and dx: "d ex_x = Some [''cd'']"
    and dy: "d ex_y = Some [''cde'']" by simp_all
  from run0 ok have run: "ac3 ex_cw2 ex_doms2 None = Some (Inr (True, d))" by simp
  have ne0: "domain_of ex_doms2 ex_x \<noteq> {}"
    by (simp add: domain_of_def ex_doms2_def ex_distinct)
  from t2_kept run ne0 have ne: "domain_of d ex_x \<noteq> {}" by blast
  have o: "overlaps ex_cw2 (ex_x, ex_y) = Some (0, 0)" by (simp add: ex_cw2_def)
  have m: "''cd'' \<in> domain_of d ex_x" using dx by (simp add: domain_of_def)
  from t2_arc ex_cw2_symmetric run ex_cw2_vars(1,2) o m
  have sup: "supported_in 0 0 ''cd'' (domain_of d ex_y)" by blast
  have n: "ac3 ex_cw2 ex_doms2 (Some []) = Some (Inr (True, ex_doms2))" by (rule t2_nil)
  from t2_unrev ex_revise_xz n
  have a: "ac3 ex_cw2 ex_doms2 (Some [(ex_x, ex_z)]) = Some (Inr (True, ex_doms2))" by simp
  note t1 = ac3_terminates[of ex_cw ex_doms1 None ex_x ex_y _ "[(ex_y, ex_x)]"
      "ex_doms1(ex_x \<mapsto> [])"]
  note t1_false = t1[THEN conjunct2, THEN conjunct2, THEN conjunct1]
  note t1_default = t1[THEN conjunct2, THEN conjunct2, THEN conjunct2, THEN conjunct2,
      THEN conjunct2, THEN conjunct1]
  note t1_emptied = t1[THEN conjunct2, THEN conjunct2, THEN conjunct2, THEN conjunct2,
      THEN conjunct2, THEN conjunct2, THEN conjunct2, THEN conjunct2, THEN conjunct2,
      THEN conjunct1]
  from t1_emptied ex_revise1_xy
  have b: "ac3 ex_cw ex_doms1 (Some [(ex_x, ex_y), (ex_y, ex_x)]) =
     Some (Inr (False, ex_doms1(ex_x \<mapsto> [])))" by simp
  with t1_default have f: "ac3 ex_cw ex_doms1 None = Some (Inr (False, ex_doms1(ex_x \<mapsto> [])))"
    by (simp add: ex_all_arcs)
  with t1_false have e: "\<exists>v. (ex_doms1(ex_x \<mapsto> [])) v = Some [] \<and> domain_of ex_doms1 v \<noteq> {}"
    by blast
  have nb: "neighbors ex_cw2 ex_y = [ex_x, ex_z]"
    by (simp add: neighbors_def ex_cw2_def ex_distinct)
  note t4 = ac3_terminates[of ex_cw2 ex_doms2 None ex_y ex_z _ "[]"
      "ex_doms2(ex_y \<mapsto> [''cde''])" "[''cde'']"]
  note t4_revised = t4[THEN conjunct2, THEN conjunct2, THEN conjunct2, THEN conjunct2,
      THEN conjunct2, THEN conjunct2, THEN conjunct2, THEN conjunct2, THEN conjunct2,
      THEN conjunct2]
  from t4_revised ex_revise_yz nb
  have c: "ac3 ex_cw2 ex_doms2 (Some [(ex_y, ex_z)]) =
     ac3 ex_cw2 (ex_doms2(ex_y \<mapsto> [''cde''])) (Some [(ex_x, ex_y)])"
    by (simp add: ex_distinct)
  have g: "\<exists>d. ac3 ex_cw2 ex_doms2 None = Some (Inr (True, d)) \<and>
        d ex_x = Some [''cd''] \<and> d ex_y = Some [''cde''] \<and>
        domain_of ex_doms2 ex_x \<noteq> {} \<and> domain_of d ex_x \<noteq> {} \<and>
        supported_in 0 0 ''cd'' (domain_of d ex_y)"
    using run dx dy ne0 ne sup by blast
  show ?thesis
    by (intro conjI ex_cw2_in_bounds ex_doms2_fit ex_cw2_symmetric g f e n a b c
        ex_revise_xz ex_revise1_xy ex_revise_yz)
qed

end
